theory Spec2Isabelle
  imports Main "HOL-Library.Multiset"
begin

section \<open>Data model of CourseScheduler.tsx\<close>

text \<open>
  JavaScript strings are modelled as \<^typ>\<open>string\<close> (ASCII code units), JavaScript numbers as
  unbounded integers (all arithmetic of the program is integer arithmetic on parsed
  digits, exact below \<open>2^53\<close>), \<open>null\<close>/\<open>undefined\<close> as \<open>None\<close>.
  A JavaScript \<open>Set\<close> is a duplicate-free list in insertion order, a \<open>Map\<close> or a plain
  object an association list in insertion order.
\<close>

record MeetingTime =
  beginTime :: "string option"
  endTime :: "string option"
  monday :: bool
  tuesday :: bool
  wednesday :: bool
  thursday :: bool
  friday :: bool
  buildingDescription :: "string option"
  room :: "string option"
  meetingScheduleType :: "string option"

record MeetingRecord =
  meetingTime :: "MeetingTime option"

record CourseRecord =
  courseReferenceNumber :: string
  courseNumber :: string
  subject :: string
  courseTitle :: string
  openSection :: bool
  seatsAvailable :: "int option"
  meetingsFaculty :: "MeetingRecord list option"

datatype Day = Monday | Tuesday | Wednesday | Thursday | Friday

definition DAYS :: "Day list" where
  "DAYS = [Monday, Tuesday, Wednesday, Thursday, Friday]"

text \<open>The dynamic lookup \<open>(mt as any)[d]\<close> of the source.\<close>

fun day_flag :: "MeetingTime \<Rightarrow> Day \<Rightarrow> bool" where
  "day_flag mt Monday = monday mt"
| "day_flag mt Tuesday = tuesday mt"
| "day_flag mt Wednesday = wednesday mt"
| "day_flag mt Thursday = thursday mt"
| "day_flag mt Friday = friday mt"

text \<open>Interface \<open>Block\<close>; the fields \<open>end\<close>, \<open>type\<close> and \<open>open\<close> are renamed
  \<open>endm\<close>, \<open>btype\<close> and \<open>bopen\<close>.\<close>

record Block =
  day :: Day
  start :: int
  endm :: int
  title :: string
  crn :: string
  broom :: "string option"
  building :: "string option"
  btype :: "string option"
  bopen :: bool

section \<open>Time model\<close>

definition is_space :: "char \<Rightarrow> bool" where
  "is_space c = ((of_char c :: nat) \<in> {9, 10, 11, 12, 13, 32})"

definition is_digit :: "char \<Rightarrow> bool" where
  "is_digit c = (48 \<le> (of_char c :: nat) \<and> (of_char c :: nat) \<le> 57)"

definition digit_val :: "char \<Rightarrow> int" where
  "digit_val c = int (of_char c) - 48"

definition digits_val :: "string \<Rightarrow> int" where
  "digits_val ds = fold (\<lambda>c acc. acc * 10 + digit_val c) ds 0"

text \<open>\<open>parseInt(s, 10)\<close>: leading white space is skipped, one sign is accepted, the
  longest run of decimal digits is read and the rest ignored; no digit gives \<open>NaN\<close>
  (\<open>None\<close>).\<close>

definition parseInt :: "string \<Rightarrow> int option" where
  "parseInt s =
     (let s1 = dropWhile is_space s;
          neg = (s1 \<noteq> [] \<and> hd s1 = CHR ''-'');
          s2 = (if s1 \<noteq> [] \<and> (hd s1 = CHR ''-'' \<or> hd s1 = CHR ''+'') then tl s1 else s1);
          ds = takeWhile is_digit s2
      in if ds = [] then None
         else Some (if neg then - digits_val ds else digits_val ds))"

definition timeStrToMinutes :: "string option \<Rightarrow> int option" where
  "timeStrToMinutes t =
     (case t of
        None \<Rightarrow> None
      | Some s \<Rightarrow>
          if s = [] \<or> length s < 3 then None
          else (case (parseInt (take (length s - 2) s), parseInt (drop (length s - 2) s)) of
                  (Some hh, Some mm) \<Rightarrow> Some (hh * 60 + mm)
                | _ \<Rightarrow> None))"

definition blocksForMeeting :: "CourseRecord \<Rightarrow> MeetingRecord \<Rightarrow> Block list" where
  "blocksForMeeting rec m =
     (case meetingTime m of
        None \<Rightarrow> []
      | Some mt \<Rightarrow>
          (case (timeStrToMinutes (beginTime mt), timeStrToMinutes (endTime mt)) of
             (Some s, Some e) \<Rightarrow>
               map (\<lambda>d. \<lparr> day = d, start = s, endm = e,
                          title = courseTitle rec, crn = courseReferenceNumber rec,
                          broom = room mt, building = buildingDescription mt,
                          btype = meetingScheduleType mt, bopen = openSection rec \<rparr>)
                   (filter (day_flag mt) DAYS)
           | _ \<Rightarrow> []))"

definition blocksForSection :: "CourseRecord \<Rightarrow> Block list" where
  "blocksForSection rec =
     concat (map (blocksForMeeting rec)
               (case meetingsFaculty rec of None \<Rightarrow> [] | Some ms \<Rightarrow> ms))"

section \<open>Overlap test\<close>

definition overlap :: "Block \<Rightarrow> Block \<Rightarrow> bool" where
  "overlap a b = (day a = day b \<and> start a < endm b \<and> start b < endm a)"

definition isCompatible :: "Block list \<Rightarrow> Block list \<Rightarrow> bool" where
  "isCompatible chosen candidate =
     (\<not> list_ex (\<lambda>b. list_ex (\<lambda>c. overlap b c) chosen) candidate)"

section \<open>JavaScript containers\<close>

text \<open>\<open>Set.prototype.add\<close>: a value already present is not added again.\<close>

definition set_add :: "'a list \<Rightarrow> 'a \<Rightarrow> 'a list" where
  "set_add s x = (if x \<in> set s then s else s @ [x])"

text \<open>Assignment to a key of a \<open>Map\<close> or object: an existing key keeps its position.\<close>

fun assoc_set :: "('k \<times> 'v) list \<Rightarrow> 'k \<Rightarrow> 'v \<Rightarrow> ('k \<times> 'v) list" where
  "assoc_set [] k v = [(k, v)]"
| "assoc_set ((k', v') # m) k v =
     (if k' = k then (k, v) # m else (k', v') # assoc_set m k v)"

definition assoc_delete :: "('k \<times> 'v) list \<Rightarrow> 'k \<Rightarrow> ('k \<times> 'v) list" where
  "assoc_delete m k = filter (\<lambda>kv. fst kv \<noteq> k) m"

section \<open>Conflict detector\<close>

type_synonym assignment = "(string \<times> CourseRecord) list"

definition flatBlocks :: "assignment \<Rightarrow> Block list" where
  "flatBlocks sol = concat (map (\<lambda>kv. blocksForSection (snd kv)) sol)"

definition conflictInner :: "Block list \<Rightarrow> nat \<Rightarrow> string list \<Rightarrow> string list" where
  "conflictInner blocks i cs =
     fold (\<lambda>j acc. if overlap (blocks ! i) (blocks ! j)
                    then set_add (set_add acc (crn (blocks ! i))) (crn (blocks ! j))
                    else acc)
          [Suc i ..< length blocks] cs"

definition findConflicts :: "assignment \<Rightarrow> string list" where
  "findConflicts sol =
     (let blocks = flatBlocks sol
      in fold (conflictInner blocks) [0 ..< length blocks] [])"

section \<open>Section indexer\<close>

definition trim :: "string \<Rightarrow> string" where
  "trim s = rev (dropWhile is_space (rev (dropWhile is_space s)))"

text \<open>The title key \<open>`${r.subject}${r.courseNumber} - ${r.courseTitle}`.trim()\<close>.\<close>

definition titleKey :: "CourseRecord \<Rightarrow> string" where
  "titleKey r = trim (subject r @ courseNumber r @ '' - '' @ courseTitle r)"

text \<open>\<open>Array.prototype.sort\<close> with a comparator is stable; it is modelled as the
  stable insertion sort.\<close>

fun insert_by :: "('a \<Rightarrow> 'a \<Rightarrow> int) \<Rightarrow> 'a \<Rightarrow> 'a list \<Rightarrow> 'a list" where
  "insert_by cmp x [] = [x]"
| "insert_by cmp x (y # ys) = (if cmp x y \<le> 0 then x # y # ys else y # insert_by cmp x ys)"

definition js_sort :: "('a \<Rightarrow> 'a \<Rightarrow> int) \<Rightarrow> 'a list \<Rightarrow> 'a list" where
  "js_sort cmp xs = foldr (insert_by cmp) xs []"

text \<open>\<open>titles\<close>; \<open>localeCompare\<close> belongs to the runtime and is a parameter.\<close>

definition titles :: "(string \<Rightarrow> string \<Rightarrow> int) \<Rightarrow> bool \<Rightarrow> CourseRecord list \<Rightarrow> string list" where
  "titles localeCompare inclClosed recs =
     js_sort localeCompare
       (fold (\<lambda>x s. set_add s x)
          (map titleKey (filter (\<lambda>r. inclClosed \<or> openSection r) recs)) [])"

definition seatsOr :: "CourseRecord \<Rightarrow> int" where
  "seatsOr r = (case seatsAvailable r of None \<Rightarrow> - 1 | Some v \<Rightarrow> v)"

definition earliestStart :: "CourseRecord \<Rightarrow> int" where
  "earliestStart r =
     (let starts = map start (blocksForSection r)
      in if starts \<noteq> [] then min_list starts else 99999)"

text \<open>The comparator passed to \<open>arr.sort\<close> in \<open>titleToSections\<close>.\<close>

definition compareSections :: "CourseRecord \<Rightarrow> CourseRecord \<Rightarrow> int" where
  "compareSections a b =
     (if openSection a \<noteq> openSection b then (if openSection a then - 1 else 1)
      else if seatsOr b \<noteq> seatsOr a then seatsOr b - seatsOr a
      else earliestStart a - earliestStart b)"

definition groupStep ::
  "bool \<Rightarrow> (string \<times> CourseRecord list) list \<Rightarrow> CourseRecord \<Rightarrow> (string \<times> CourseRecord list) list" where
  "groupStep inclClosed m r =
     (if \<not> inclClosed \<and> \<not> openSection r then m
      else (let key = titleKey r;
                m1 = (if map_of m key = None then assoc_set m key [] else m)
            in assoc_set m1 key ((case map_of m1 key of None \<Rightarrow> [] | Some arr \<Rightarrow> arr) @ [r])))"

definition titleToSections :: "bool \<Rightarrow> CourseRecord list \<Rightarrow> (string \<times> CourseRecord list) list" where
  "titleToSections inclClosed recs =
     map (\<lambda>kv. (fst kv, js_sort compareSections (snd kv)))
         (foldl (groupStep inclClosed) [] recs)"

text \<open>\<open>titleToSections.get(t) || []\<close>.\<close>

definition candidatesOf :: "bool \<Rightarrow> CourseRecord list \<Rightarrow> string \<Rightarrow> CourseRecord list" where
  "candidatesOf inclClosed recs t =
     (case map_of (titleToSections inclClosed recs) t of None \<Rightarrow> [] | Some arr \<Rightarrow> arr)"

section \<open>Schedule solver\<close>

text \<open>
  The closure \<open>dfs\<close> of \<open>generateSchedule\<close> mutates \<open>chosen\<close> and \<open>chosenBlocks\<close>; both are
  threaded through as a pair and returned with the boolean. The list of titles is the
  suffix of \<open>targetTitles\<close> from index \<open>i\<close>; \<open>tryCandidates\<close> is the \<open>for\<close> loop over
  the candidates of \<open>targetTitles[i]\<close>.
\<close>

fun dfs ::
    "(string \<Rightarrow> CourseRecord list) \<Rightarrow> string list \<Rightarrow> assignment \<times> Block list
       \<Rightarrow> bool \<times> assignment \<times> Block list"
  and tryCandidates ::
    "(string \<Rightarrow> CourseRecord list) \<Rightarrow> string \<Rightarrow> string list \<Rightarrow> CourseRecord list
       \<Rightarrow> assignment \<times> Block list \<Rightarrow> bool \<times> assignment \<times> Block list" where
  "dfs cand [] st = (True, st)"
| "dfs cand (t # ts) st = tryCandidates cand t ts (cand t) st"
| "tryCandidates cand t ts [] st = (False, st)"
| "tryCandidates cand t ts (sec # secs) st =
     (let blocks = blocksForSection sec
      in if blocks = [] then tryCandidates cand t ts secs st
         else if isCompatible (snd st) blocks then
           (let r = dfs cand ts (assoc_set (fst st) t sec, snd st @ blocks)
            in if fst r then r
               else tryCandidates cand t ts secs
                      (assoc_delete (fst (snd r)) t,
                       take (length (snd (snd r)) - length blocks) (snd (snd r))))
         else tryCandidates cand t ts secs st)"

record scheduler_state =
  records :: "CourseRecord list"
  includeClosed :: bool
  selectedTitles :: "string list"
  solution :: "assignment option"
  status :: string
  conflictCRNs :: "string list"

definition targetTitles :: "scheduler_state \<Rightarrow> string list" where
  "targetTitles st =
     filter (\<lambda>t. candidatesOf (includeClosed st) (records st) t \<noteq> []) (selectedTitles st)"

definition generateSchedule :: "scheduler_state \<Rightarrow> scheduler_state" where
  "generateSchedule st =
     (if targetTitles st = []
      then st\<lparr> status := ''Select at least one course.'', solution := None \<rparr>
      else (let r = dfs (candidatesOf (includeClosed st) (records st)) (targetTitles st) ([], [])
            in if fst r
               then st\<lparr> solution := Some (fst (snd r)),
                        conflictCRNs := findConflicts (fst (snd r)),
                        status := ''Schedule generated.'' \<rparr>
               else st\<lparr> solution := None, conflictCRNs := [],
                        status := ''No conflict-free combination found.'' \<rparr>))"

definition overrideSection :: "scheduler_state \<Rightarrow> string \<Rightarrow> string \<Rightarrow> scheduler_state" where
  "overrideSection st ttl c =
     (case solution st of
        None \<Rightarrow> st
      | Some sol \<Rightarrow>
          (case find (\<lambda>s. courseReferenceNumber s = c)
                     (candidatesOf (includeClosed st) (records st) ttl) of
             None \<Rightarrow> st
           | Some pick \<Rightarrow>
               (let next = assoc_set sol ttl pick; conf = findConflicts next
                in st\<lparr> solution := Some next, conflictCRNs := conf,
                        status := (if conf \<noteq> []
                                   then ''Manual override applied (conflicts highlighted).''
                                   else ''Manual override applied.'') \<rparr>)))"

section \<open>Upload\<close>

text \<open>The value handed to \<open>ingestJson\<close>: an array (of records), an object, or anything
  else that \<open>JSON.parse\<close> can return.\<close>

datatype raw_json = RawArray "CourseRecord list" | RawObject "(string \<times> raw_json) list" | RawOther

definition digit_char :: "nat \<Rightarrow> char" where
  "digit_char d = char_of (48 + d)"

function show_nat :: "nat \<Rightarrow> string" where
  "show_nat n = (if n < 10 then [digit_char n] else show_nat (n div 10) @ [digit_char (n mod 10)])"
  by pat_completeness auto
termination
  by (relation "measure id") auto

definition rawRecords :: "raw_json \<Rightarrow> CourseRecord list" where
  "rawRecords raw =
     (case raw of
        RawObject fs \<Rightarrow> (case map_of fs ''data'' of Some (RawArray xs) \<Rightarrow> xs | _ \<Rightarrow> [])
      | RawArray xs \<Rightarrow> xs
      | RawOther \<Rightarrow> [])"

definition ingestJson :: "scheduler_state \<Rightarrow> raw_json \<Rightarrow> scheduler_state" where
  "ingestJson st raw =
     (let arr = rawRecords raw
      in if arr = [] then st\<lparr> status := ''JSON parsed, but no records found.'' \<rparr>
         else st\<lparr> records := arr, solution := None, conflictCRNs := [],
                  status := ''Loaded '' @ show_nat (length arr) @ '' sections from JSON'' \<rparr>)"

text \<open>\<open>handleFile\<close> after the file has been read: \<open>JSON.parse\<close> either throws (with a
  message) or returns a value.\<close>

definition handleFile :: "scheduler_state \<Rightarrow> string + raw_json \<Rightarrow> scheduler_state" where
  "handleFile st parsed =
     (case parsed of
        Inl msg \<Rightarrow> st\<lparr> status := ''Could not parse JSON: '' @ msg \<rparr>
      | Inr raw \<Rightarrow> ingestJson st raw)"

section \<open>Prerequisite graph\<close>

text \<open>Of the study plan only the fields read by \<open>prereqMap\<close> are kept.\<close>

record StudyPlanCourse =
  courseCode :: string
  prerequisites :: "string list option"

record StudyPlanSemester =
  courses :: "StudyPlanCourse list"

record StudyPlanYear =
  semesters :: "StudyPlanSemester list"

record StudyPlan =
  yearlyCourses :: "StudyPlanYear list"
  technicalElectives :: "StudyPlanCourse list option"

definition to_upper :: "char \<Rightarrow> char" where
  "to_upper c =
     (if 97 \<le> (of_char c :: nat) \<and> (of_char c :: nat) \<le> 122
      then char_of ((of_char c :: nat) - 32) else c)"

text \<open>\<open>(x || "").replace(/\s+/g, "").toUpperCase()\<close>.\<close>

definition normalize :: "string \<Rightarrow> string" where
  "normalize x = map to_upper (filter (\<lambda>c. \<not> is_space c) x)"

type_synonym graph = "(string \<times> string list) list"

text \<open>\<open>m.get(k) ?? []\<close>.\<close>

definition adj :: "graph \<Rightarrow> string \<Rightarrow> string list" where
  "adj g k = (case map_of g k of None \<Rightarrow> [] | Some s \<Rightarrow> s)"

text \<open>The local function \<open>add\<close> of \<open>prereqMap\<close>.\<close>

definition add :: "graph \<Rightarrow> string \<Rightarrow> string list option \<Rightarrow> graph" where
  "add out code reqs =
     (let key = normalize code
      in if key = [] then out
         else (let out1 = (if map_of out key = None then assoc_set out key [] else out)
               in fold (\<lambda>r m. assoc_set m key (set_add (adj m key) (normalize r)))
                       (case reqs of None \<Rightarrow> [] | Some rs \<Rightarrow> rs) out1))"

definition planCourses :: "StudyPlan \<Rightarrow> StudyPlanCourse list" where
  "planCourses plan =
     concat (map (\<lambda>yr. concat (map courses (semesters yr))) (yearlyCourses plan))
     @ (case technicalElectives plan of None \<Rightarrow> [] | Some es \<Rightarrow> es)"

definition prereqMap :: "StudyPlan option \<Rightarrow> graph" where
  "prereqMap activePlan =
     (case activePlan of
        None \<Rightarrow> []
      | Some plan \<Rightarrow> fold (\<lambda>c out. add out (courseCode c) (prerequisites c)) (planCourses plan) [])"

definition dependentsAdj :: "graph \<Rightarrow> graph" where
  "dependentsAdj pm =
     fold (\<lambda>entry m.
             fold (\<lambda>r m'. (let m1 = (if map_of m' r = None then assoc_set m' r [] else m')
                           in assoc_set m1 r (set_add (adj m1 r) (fst entry))))
                  (snd entry) m)
          pm []"

text \<open>
  The \<open>while (stack.length)\<close> loop shared by \<open>allPrereqAncestors\<close> and \<open>allDependents\<close>.
  The stack is kept with its top at the head of the list: \<open>pop()\<close> takes the head,
  and pushing the neighbours one after the other leaves the last of them on top.
\<close>

definition graph_nodes :: "graph \<Rightarrow> string set" where
  "graph_nodes g = (\<Union>kv \<in> set g. set (snd kv))"

function walk :: "graph \<Rightarrow> string list \<Rightarrow> string list \<Rightarrow> string list" where
  "walk g [] out = out"
| "walk g (cur # stack) out =
     (if cur \<in> set out then walk g stack out
      else walk g (rev (adj g cur) @ stack) (out @ [cur]))"
  by pat_completeness auto
termination
proof (relation "measures [\<lambda>(g, stack, out). card ((graph_nodes g \<union> set stack) - set out),
                           \<lambda>(g, stack, out). length stack]", goal_cases)
  case 1
  show ?case by simp
next
  case (2 g cur stack out)
  then have "(graph_nodes g \<union> set (cur # stack)) - set out = (graph_nodes g \<union> set stack) - set out"
    by auto
  then show ?case by simp
next
  case (3 g cur stack out)
  have fin: "finite (graph_nodes g \<union> set (cur # stack) - set out)"
    by (simp add: graph_nodes_def)
  have "set (adj g cur) \<subseteq> graph_nodes g"
  proof (cases "map_of g cur")
    case None
    then show ?thesis by (simp add: adj_def)
  next
    case (Some s)
    then have "(cur, s) \<in> set g" by (rule map_of_SomeD)
    then have "set s \<subseteq> graph_nodes g" unfolding graph_nodes_def by force
    with Some show ?thesis by (simp add: adj_def)
  qed
  then have "(graph_nodes g \<union> set (rev (adj g cur) @ stack)) - set (out @ [cur])
               \<subset> (graph_nodes g \<union> set (cur # stack)) - set out"
    using 3 by auto
  then have "card ((graph_nodes g \<union> set (rev (adj g cur) @ stack)) - set (out @ [cur]))
               < card ((graph_nodes g \<union> set (cur # stack)) - set out)"
    using fin by (rule psubset_card_mono [rotated])
  then show ?case by simp
qed

text \<open>The same loop with a bound on the number of iterations: \<open>None\<close> when the bound is
  reached with the stack not yet empty.\<close>

fun walk_steps :: "nat \<Rightarrow> graph \<Rightarrow> string list \<Rightarrow> string list \<Rightarrow> string list option" where
  "walk_steps n g [] out = Some out"
| "walk_steps 0 g (cur # stack) out = None"
| "walk_steps (Suc n) g (cur # stack) out =
     (if cur \<in> set out then walk_steps n g stack out
      else walk_steps n g (rev (adj g cur) @ stack) (out @ [cur]))"

text \<open>The memoised sets; \<open>hoveredCode\<close> is \<open>null\<close> or a string, and \<open>!hoveredCode\<close> also
  holds for the empty string.\<close>

definition noHover :: "string option \<Rightarrow> bool" where
  "noHover h = (case h of None \<Rightarrow> True | Some q \<Rightarrow> q = [])"

definition directPrereqs :: "graph \<Rightarrow> string option \<Rightarrow> string list" where
  "directPrereqs pm h = (if noHover h then [] else adj pm (the h))"

definition allPrereqAncestors :: "graph \<Rightarrow> string option \<Rightarrow> string list" where
  "allPrereqAncestors pm h = (if noHover h then [] else walk pm (rev (adj pm (the h))) [])"

definition indirectPrereqs :: "graph \<Rightarrow> string option \<Rightarrow> string list" where
  "indirectPrereqs pm h =
     fold (\<lambda>d out. removeAll d out) (directPrereqs pm h) (allPrereqAncestors pm h)"

definition directDependents :: "graph \<Rightarrow> string option \<Rightarrow> string list" where
  "directDependents dadj h = (if noHover h then [] else adj dadj (the h))"

definition allDependents :: "graph \<Rightarrow> string option \<Rightarrow> string list" where
  "allDependents dadj h = (if noHover h then [] else walk dadj (rev (adj dadj (the h))) [])"

definition indirectDependents :: "graph \<Rightarrow> string option \<Rightarrow> string list" where
  "indirectDependents dadj h =
     fold (\<lambda>d out. removeAll d out) (directDependents dadj h) (allDependents dadj h)"

text \<open>The edges of the requires-map: \<open>(c, r)\<close> when \<open>r\<close> is listed for \<open>c\<close>.\<close>

definition requires :: "graph \<Rightarrow> (string \<times> string) set" where
  "requires g = {(c, r). r \<in> set (adj g c)}"

section \<open>The search order of the solver, after the specification\<close>

text \<open>
  All ways of taking one candidate per title, titles in the given order and candidates
  in candidate-list order, the first title varying slowest: the order in which a
  depth-first search visits complete choices.
\<close>

fun choices :: "'a list list \<Rightarrow> 'a list list" where
  "choices [] = [[]]"
| "choices (cs # css) = concat (map (\<lambda>c. map ((#) c) (choices css)) cs)"

text \<open>A choice is acceptable after the blocks \<open>placed\<close> when each section in turn has
  blocks and is compatible with everything placed before it.\<close>

fun acceptable :: "Block list \<Rightarrow> CourseRecord list \<Rightarrow> bool" where
  "acceptable placed [] = True"
| "acceptable placed (s # ss) =
     (blocksForSection s \<noteq> [] \<and> isCompatible placed (blocksForSection s)
      \<and> acceptable (placed @ blocksForSection s) ss)"

definition firstAcceptable :: "(string \<Rightarrow> CourseRecord list) \<Rightarrow> string list \<Rightarrow> CourseRecord list option" where
  "firstAcceptable cand ts = find (acceptable []) (choices (map cand ts))"

text \<open>The outcome of a search over the titles \<open>ts\<close> started in state \<open>st\<close>, given the
  first acceptable choice: on failure the blocks are as before and the entries of
  other titles untouched; on success the picked sections are placed and recorded.\<close>

definition search_result ::
  "string list \<Rightarrow> assignment \<times> Block list \<Rightarrow> CourseRecord list option
     \<Rightarrow> bool \<times> assignment \<times> Block list \<Rightarrow> bool" where
  "search_result ts st found r =
     (case found of
        None \<Rightarrow> \<not> fst r \<and> snd (snd r) = snd st
                 \<and> map_of (fst (snd r)) |` (- set ts) = map_of (fst st) |` (- set ts)
      | Some picks \<Rightarrow> fst r \<and> length picks = length ts
                 \<and> snd (snd r) = snd st @ concat (map blocksForSection picks)
                 \<and> map_of (fst (snd r)) = map_of (fst st) ++ map_of (rev (zip ts picks)))"

section \<open>The candidate order, after the specification\<close>

text \<open>Open sections before closed; then more available seats first; then the earlier
  first start.\<close>

definition rankBefore :: "CourseRecord \<Rightarrow> CourseRecord \<Rightarrow> bool" where
  "rankBefore a b =
     ((openSection a \<and> \<not> openSection b)
      \<or> (openSection a = openSection b
          \<and> (seatsOr b < seatsOr a
              \<or> (seatsOr a = seatsOr b \<and> earliestStart a \<le> earliestStart b))))"

definition sameRank :: "CourseRecord \<Rightarrow> CourseRecord \<Rightarrow> bool" where
  "sameRank a b =
     (openSection a = openSection b \<and> seatsOr a = seatsOr b
      \<and> earliestStart a = earliestStart b)"

section \<open>Sample data\<close>

definition mkMeeting :: "Day list \<Rightarrow> string \<Rightarrow> string \<Rightarrow> MeetingRecord" where
  "mkMeeting ds b e =
     \<lparr> meetingTime = Some \<lparr> beginTime = Some b, endTime = Some e,
         monday = (Monday \<in> set ds), tuesday = (Tuesday \<in> set ds),
         wednesday = (Wednesday \<in> set ds), thursday = (Thursday \<in> set ds),
         friday = (Friday \<in> set ds),
         buildingDescription = None, room = None, meetingScheduleType = None \<rparr> \<rparr>"

definition mkSection ::
  "string \<Rightarrow> string \<Rightarrow> bool \<Rightarrow> int option \<Rightarrow> MeetingRecord list \<Rightarrow> CourseRecord" where
  "mkSection c ttl opn seats ms =
     \<lparr> courseReferenceNumber = c, courseNumber = ''1201'', subject = ''ICT'',
       courseTitle = ttl, openSection = opn, seatsAvailable = seats,
       meetingsFaculty = Some ms \<rparr>"

definition exOverlapping :: assignment where
  "exOverlapping =
     [(''ICT1201 - Algebra'',
         mkSection ''101'' ''Algebra'' True (Some 5) [mkMeeting [Monday] ''0900'' ''1000'']),
      (''ICT1201 - Biology'',
         mkSection ''102'' ''Biology'' True (Some 5) [mkMeeting [Monday] ''0950'' ''1010'']),
      (''ICT1201 - Calculus'',
         mkSection ''103'' ''Calculus'' True (Some 5) [mkMeeting [Monday] ''1010'' ''1100''])]"

definition exOutOfRange :: CourseRecord where
  "exOutOfRange = mkSection ''104'' ''Drawing'' True (Some 5) [mkMeeting [Monday] ''0999'' ''2575'']"

definition mkPlan :: "(string \<times> string list) list \<Rightarrow> StudyPlan" where
  "mkPlan cs =
     \<lparr> yearlyCourses =
         [\<lparr> semesters =
             [\<lparr> courses = map (\<lambda>c. \<lparr> courseCode = fst c, prerequisites = Some (snd c) \<rparr>) cs \<rparr>] \<rparr>],
       technicalElectives = None \<rparr>"

definition planABC :: StudyPlan where
  "planABC = mkPlan [(''A'', []), (''B'', [''A'']), (''C'', [''B''])]"

definition planCycle :: StudyPlan where
  "planCycle = mkPlan [(''A'', [''B'']), (''B'', [''A''])]"

definition mkState :: "CourseRecord list \<Rightarrow> bool \<Rightarrow> string list \<Rightarrow> scheduler_state" where
  "mkState recs ic sel =
     \<lparr> records = recs, includeClosed = ic, selectedTitles = sel,
       solution = None, status = [], conflictCRNs = [] \<rparr>"

definition secA1 :: CourseRecord where
  "secA1 = mkSection ''201'' ''Algebra'' True (Some 5) [mkMeeting [Monday] ''0900'' ''1000'']"

definition secA2 :: CourseRecord where
  "secA2 = mkSection ''202'' ''Algebra'' True (Some 3) [mkMeeting [Monday] ''1100'' ''1200'']"

definition secB1 :: CourseRecord where
  "secB1 = mkSection ''203'' ''Biology'' True (Some 4) [mkMeeting [Monday] ''0930'' ''1030'']"

definition exBacktrack :: scheduler_state where
  "exBacktrack = mkState [secA2, secB1, secA1] False [''ICT1201 - Algebra'', ''ICT1201 - Biology'']"

definition secNoBlocks :: CourseRecord where
  "secNoBlocks = mkSection ''204'' ''Ethics'' True (Some 9) []"

definition exBlockFree :: scheduler_state where
  "exBlockFree = mkState [secNoBlocks] False [''ICT1201 - Ethics'']"

definition secTwice :: CourseRecord where
  "secTwice = mkSection ''205'' ''Physics'' True (Some 9)
                [mkMeeting [Monday] ''0900'' ''1000'', mkMeeting [Monday] ''0900'' ''1000'']"

definition exSelfOverlap :: scheduler_state where
  "exSelfOverlap = mkState [secTwice] False [''ICT1201 - Physics'']"

definition secOpen :: CourseRecord where
  "secOpen = mkSection ''301'' ''Networks'' True (Some 5) [mkMeeting [Tuesday] ''0900'' ''1000'']"

definition secClosed :: CourseRecord where
  "secClosed = mkSection ''302'' ''Networks'' False (Some 9) [mkMeeting [Tuesday] ''0800'' ''0900'']"

definition secOpen3 :: CourseRecord where
  "secOpen3 = mkSection ''303'' ''Networks'' True (Some 3) [mkMeeting [Tuesday] ''0800'' ''0900'']"

definition secNoSeats :: CourseRecord where
  "secNoSeats = mkSection ''304'' ''Networks'' True None [mkMeeting [Tuesday] ''0900'' ''1000'']"

definition secOverfull :: CourseRecord where
  "secOverfull = mkSection ''305'' ''Networks'' True (Some (- 2)) [mkMeeting [Tuesday] ''0900'' ''1000'']"

definition exOverride :: scheduler_state where
  "exOverride =
     (mkState [secOpen, secClosed, secOpen3] False [''ICT1201 - Networks''])
       \<lparr> solution := Some [(''ICT1201 - Algebra'', secA1), (''ICT1201 - Networks'', secOpen)] \<rparr>"

section \<open>Properties of the containers\<close>

lemma set_set_add [simp]: "set (set_add s x) = insert x (set s)"
  by (auto simp: set_add_def)

lemma distinct_set_add [simp]: "distinct s \<Longrightarrow> distinct (set_add s x)"
  by (simp add: set_add_def)

section \<open>Blocks and overlap\<close>

lemma set_DAYS: "set DAYS = UNIV"
proof -
  have "d \<in> set DAYS" for d by (cases d) (simp_all add: DAYS_def)
  then show ?thesis by blast
qed

lemma blocksForMeeting_iff:
  "b \<in> set (blocksForMeeting rec m) \<longleftrightarrow>
     (\<exists>mt s e. meetingTime m = Some mt \<and> timeStrToMinutes (beginTime mt) = Some s
        \<and> timeStrToMinutes (endTime mt) = Some e \<and> day_flag mt (day b)
        \<and> b = \<lparr> day = day b, start = s, endm = e,
                  title = courseTitle rec, crn = courseReferenceNumber rec,
                  broom = room mt, building = buildingDescription mt,
                  btype = meetingScheduleType mt, bopen = openSection rec \<rparr>)"
proof (cases "meetingTime m")
  case None
  then show ?thesis by (simp add: blocksForMeeting_def)
next
  case mt: (Some mt)
  show ?thesis
  proof (cases "timeStrToMinutes (beginTime mt)")
    case None
    with mt show ?thesis by (simp add: blocksForMeeting_def)
  next
    case s: (Some s)
    show ?thesis
    proof (cases "timeStrToMinutes (endTime mt)")
      case None
      with mt s show ?thesis by (simp add: blocksForMeeting_def)
    next
      case e: (Some e)
      with mt s show ?thesis by (auto simp: blocksForMeeting_def set_DAYS)
    qed
  qed
qed

lemma overlap_sym: "overlap a b = overlap b a"
  by (auto simp: overlap_def)

lemma isCompatible_iff:
  "isCompatible chosen candidate \<longleftrightarrow> (\<forall>b \<in> set candidate. \<forall>c \<in> set chosen. \<not> overlap b c)"
  by (auto simp: isCompatible_def list_ex_iff)

section \<open>Conflict detector\<close>

lemma conflict_fold_set:
  "set (fold (\<lambda>j acc. if overlap (bs ! i) (bs ! j)
                    then set_add (set_add acc (crn (bs ! i))) (crn (bs ! j))
                    else acc) js cs)
   = set cs \<union> {c. \<exists>j \<in> set js. overlap (bs ! i) (bs ! j) \<and> (c = crn (bs ! i) \<or> c = crn (bs ! j))}"
  by (induction js arbitrary: cs) auto

lemma conflict_fold_distinct:
  "distinct cs \<Longrightarrow> distinct (fold (\<lambda>j acc. if overlap (bs ! i) (bs ! j)
                    then set_add (set_add acc (crn (bs ! i))) (crn (bs ! j))
                    else acc) js cs)"
  by (induction js arbitrary: cs) auto

lemma conflictInner_set:
  "set (conflictInner bs i cs)
   = set cs \<union> {c. \<exists>j. i < j \<and> j < length bs \<and> overlap (bs ! i) (bs ! j)
                       \<and> (c = crn (bs ! i) \<or> c = crn (bs ! j))}"
  unfolding conflictInner_def conflict_fold_set
  by (auto simp: Suc_le_eq intro: exI)

lemma conflictInner_distinct: "distinct cs \<Longrightarrow> distinct (conflictInner bs i cs)"
  unfolding conflictInner_def by (rule conflict_fold_distinct)

lemma conflictOuter_set:
  "set (fold (conflictInner bs) is cs)
   = set cs \<union> {c. \<exists>i \<in> set is. \<exists>j. i < j \<and> j < length bs \<and> overlap (bs ! i) (bs ! j)
                       \<and> (c = crn (bs ! i) \<or> c = crn (bs ! j))}"
  by (induction "is" arbitrary: cs) (auto simp: conflictInner_set)

lemma conflictOuter_distinct:
  "distinct cs \<Longrightarrow> distinct (fold (conflictInner bs) is cs)"
  by (induction "is" arbitrary: cs) (auto simp: conflictInner_distinct)

lemma findConflicts_set:
  "set (findConflicts sol) =
     {c. \<exists>i j. i < length (flatBlocks sol) \<and> j < length (flatBlocks sol) \<and> i \<noteq> j
               \<and> overlap (flatBlocks sol ! i) (flatBlocks sol ! j)
               \<and> c = crn (flatBlocks sol ! i)}" (is "?L = ?R")
proof
  show "?L \<subseteq> ?R"
  proof
    fix c assume "c \<in> ?L"
    then obtain i j where "i < j" "j < length (flatBlocks sol)"
        "overlap (flatBlocks sol ! i) (flatBlocks sol ! j)"
        "c = crn (flatBlocks sol ! i) \<or> c = crn (flatBlocks sol ! j)"
      unfolding findConflicts_def Let_def conflictOuter_set by auto
    then have ij: "i < length (flatBlocks sol)" "i \<noteq> j" "j \<noteq> i"
        "overlap (flatBlocks sol ! j) (flatBlocks sol ! i)"
      using overlap_sym [of "flatBlocks sol ! i" "flatBlocks sol ! j"] by auto
    from \<open>c = crn (flatBlocks sol ! i) \<or> c = crn (flatBlocks sol ! j)\<close>
    show "c \<in> ?R"
    proof
      assume "c = crn (flatBlocks sol ! i)"
      with ij \<open>j < length (flatBlocks sol)\<close>
        \<open>overlap (flatBlocks sol ! i) (flatBlocks sol ! j)\<close>
      show ?thesis by blast
    next
      assume "c = crn (flatBlocks sol ! j)"
      with ij \<open>j < length (flatBlocks sol)\<close> show ?thesis by blast
    qed
  qed
  show "?R \<subseteq> ?L"
  proof
    fix c assume "c \<in> ?R"
    then obtain i j where ij: "i < length (flatBlocks sol)" "j < length (flatBlocks sol)" "i \<noteq> j"
       "overlap (flatBlocks sol ! i) (flatBlocks sol ! j)" "c = crn (flatBlocks sol ! i)"
      by blast
    show "c \<in> ?L"
    proof (cases "i < j")
      case True
      with ij show ?thesis
        unfolding findConflicts_def Let_def conflictOuter_set by auto
    next
      case False
      with ij have "j < i" by simp
      moreover from ij have "overlap (flatBlocks sol ! j) (flatBlocks sol ! i)"
        using overlap_sym by blast
      ultimately show ?thesis using ij
        unfolding findConflicts_def Let_def conflictOuter_set by auto
    qed
  qed
qed

lemma findConflicts_distinct: "distinct (findConflicts sol)"
  unfolding findConflicts_def Let_def by (rule conflictOuter_distinct) simp

text \<open>
  Claim C3. For every assignment the conflict detector returns exactly the section
  identifiers (CRNs) owning a block that occurs in at least one overlapping pair of two
  different positions of the flattened block list, each identifier once. Two blocks
  overlap iff they are on the same day, \<open>a.start < b.end\<close> and \<open>b.start < a.end\<close>;
  blocks that only touch (the end of one is the start of the other) never overlap, and
  for blocks with \<open>start < end\<close> the test says that the half-open intervals
  \<open>[start, end)\<close> intersect.
\<close>

theorem findConflicts_exact:
  "set (findConflicts sol) =
     {c. \<exists>i j. i < length (flatBlocks sol) \<and> j < length (flatBlocks sol) \<and> i \<noteq> j
               \<and> overlap (flatBlocks sol ! i) (flatBlocks sol ! j)
               \<and> c = crn (flatBlocks sol ! i)}
   \<and> distinct (findConflicts sol)
   \<and> overlap a b = (day a = day b \<and> start a < endm b \<and> start b < endm a)
   \<and> (endm a = start b \<or> endm b = start a \<longrightarrow> \<not> overlap a b)
   \<and> (start a < endm a \<and> start b < endm b \<longrightarrow>
        overlap a b = (day a = day b \<and> {start a ..< endm a} \<inter> {start b ..< endm b} \<noteq> {}))"
proof -
  have touch: "endm a = start b \<or> endm b = start a \<longrightarrow> \<not> overlap a b"
    by (auto simp: overlap_def)
  have ivl: "start a < endm a \<and> start b < endm b \<longrightarrow>
        overlap a b = (day a = day b \<and> {start a ..< endm a} \<inter> {start b ..< endm b} \<noteq> {})"
  proof
    assume pr: "start a < endm a \<and> start b < endm b"
    have "({start a ..< endm a} \<inter> {start b ..< endm b} \<noteq> {})
            = (start a < endm b \<and> start b < endm a)"
      using pr by auto
    then show "overlap a b = (day a = day b \<and> {start a ..< endm a} \<inter> {start b ..< endm b} \<noteq> {})"
      by (simp add: overlap_def)
  qed
  show ?thesis
    using findConflicts_set [of sol] findConflicts_distinct [of sol] touch ivl
    by (simp add: overlap_def)
qed

theorem findConflicts_exact_witness:
  "set (findConflicts exOverlapping) = {''101'', ''102''}
   \<and> {c. \<exists>i j. i < length (flatBlocks exOverlapping) \<and> j < length (flatBlocks exOverlapping)
               \<and> i \<noteq> j
               \<and> overlap (flatBlocks exOverlapping ! i) (flatBlocks exOverlapping ! j)
               \<and> c = crn (flatBlocks exOverlapping ! i)} = {''101'', ''102''}
   \<and> endm (flatBlocks exOverlapping ! 1) = start (flatBlocks exOverlapping ! 2)
   \<and> \<not> overlap (flatBlocks exOverlapping ! 1) (flatBlocks exOverlapping ! 2)"
proof -
  have ev: "findConflicts exOverlapping = [''101'', ''102'']"
    by code_simp
  have touching: "endm (flatBlocks exOverlapping ! 1) = start (flatBlocks exOverlapping ! 2)"
    by code_simp
  from findConflicts_exact [of exOverlapping "flatBlocks exOverlapping ! 1"
      "flatBlocks exOverlapping ! 2"] ev touching
  show ?thesis by auto
qed

section \<open>Time parsing\<close>

text \<open>
  Claim C10. Time parsing validates no range: for every string of length at least 3
  whose prefix (all but the last two characters) and whose last two characters both
  parse as integers, the result is \<open>prefix * 60 + suffix\<close>, whatever the two numbers
  are; \<open>"0999"\<close> gives 639. Every meeting with two parsed times yields, for each
  flagged weekday, a block carrying exactly these two values, and the overlap test
  compares them as they are.
\<close>

theorem timeStrToMinutes_no_range_validation:
  "(3 \<le> length t \<and> parseInt (take (length t - 2) t) = Some hh
       \<and> parseInt (drop (length t - 2) t) = Some mm
     \<longrightarrow> timeStrToMinutes (Some t) = Some (hh * 60 + mm))
   \<and> timeStrToMinutes (Some ''0999'') = Some 639
   \<and> (meetingsFaculty rec = Some ms \<and> m \<in> set ms \<and> meetingTime m = Some mt
       \<and> timeStrToMinutes (beginTime mt) = Some s \<and> timeStrToMinutes (endTime mt) = Some e
       \<and> day_flag mt d
     \<longrightarrow> (\<exists>b \<in> set (blocksForSection rec). day b = d \<and> start b = s \<and> endm b = e))
   \<and> overlap a b = (day a = day b \<and> start a < endm b \<and> start b < endm a)"
proof -
  have parts: "3 \<le> length t \<and> parseInt (take (length t - 2) t) = Some hh
       \<and> parseInt (drop (length t - 2) t) = Some mm
     \<longrightarrow> timeStrToMinutes (Some t) = Some (hh * 60 + mm)"
    by (auto simp: timeStrToMinutes_def)
  have ex: "timeStrToMinutes (Some ''0999'') = Some 639"
    by code_simp
  have flow: "meetingsFaculty rec = Some ms \<and> m \<in> set ms \<and> meetingTime m = Some mt
       \<and> timeStrToMinutes (beginTime mt) = Some s \<and> timeStrToMinutes (endTime mt) = Some e
       \<and> day_flag mt d
     \<longrightarrow> (\<exists>b \<in> set (blocksForSection rec). day b = d \<and> start b = s \<and> endm b = e)"
  proof
    assume h: "meetingsFaculty rec = Some ms \<and> m \<in> set ms \<and> meetingTime m = Some mt
       \<and> timeStrToMinutes (beginTime mt) = Some s \<and> timeStrToMinutes (endTime mt) = Some e
       \<and> day_flag mt d"
    define b where "b = \<lparr> day = d, start = s, endm = e,
                  title = courseTitle rec, crn = courseReferenceNumber rec,
                  broom = room mt, building = buildingDescription mt,
                  btype = meetingScheduleType mt, bopen = openSection rec \<rparr>"
    from h have "b \<in> set (blocksForMeeting rec m)"
      unfolding blocksForMeeting_iff b_def by simp
    with h have "b \<in> set (blocksForSection rec)"
      unfolding blocksForSection_def by auto
    moreover have "day b = d \<and> start b = s \<and> endm b = e" by (simp add: b_def)
    ultimately show "\<exists>b \<in> set (blocksForSection rec). day b = d \<and> start b = s \<and> endm b = e"
      by blast
  qed
  from parts ex flow show ?thesis by (simp add: overlap_def)
qed

theorem timeStrToMinutes_no_range_validation_witness:
  "3 \<le> length ''0999'' \<and> parseInt ''09'' = Some 9 \<and> parseInt ''99'' = Some 99
   \<and> timeStrToMinutes (Some ''0999'') = Some (9 * 60 + 99)
   \<and> timeStrToMinutes (Some ''2575'') = Some 1575
   \<and> (\<exists>b \<in> set (blocksForSection exOutOfRange). day b = Monday \<and> start b = 639 \<and> endm b = 1575)"
proof -
  have p1: "parseInt ''09'' = Some 9" by code_simp
  have p2: "parseInt ''99'' = Some 99" by code_simp
  have e1: "timeStrToMinutes (Some ''0999'') = Some 639" by code_simp
  have e2: "timeStrToMinutes (Some ''2575'') = Some 1575" by code_simp
  have mf: "meetingsFaculty exOutOfRange = Some [mkMeeting [Monday] ''0999'' ''2575'']"
    by (simp add: exOutOfRange_def mkSection_def)
  have mt: "meetingTime (mkMeeting [Monday] ''0999'' ''2575'')
              = Some (the (meetingTime (mkMeeting [Monday] ''0999'' ''2575'')))"
    by (simp add: mkMeeting_def)
  have bt: "beginTime (the (meetingTime (mkMeeting [Monday] ''0999'' ''2575''))) = Some ''0999''"
           "endTime (the (meetingTime (mkMeeting [Monday] ''0999'' ''2575''))) = Some ''2575''"
           "day_flag (the (meetingTime (mkMeeting [Monday] ''0999'' ''2575''))) Monday"
    by (simp_all add: mkMeeting_def)
  from timeStrToMinutes_no_range_validation
         [where t = "''0999''" and hh = 9 and mm = 99 and rec = exOutOfRange
            and ms = "[mkMeeting [Monday] ''0999'' ''2575'']"
            and m = "mkMeeting [Monday] ''0999'' ''2575''"
            and mt = "the (meetingTime (mkMeeting [Monday] ''0999'' ''2575''))"
            and s = 639 and e = 1575 and d = Monday]
       p1 p2 e1 e2 mf mt bt
  show ?thesis by simp
qed

section \<open>Prerequisite graph queries\<close>

lemma map_of_assoc_set [simp]: "map_of (assoc_set m k v) = (map_of m)(k \<mapsto> v)"
  by (induction m k v rule: assoc_set.induct) auto

lemma keys_assoc_set: "fst ` set (assoc_set m k v) = insert k (fst ` set m)"
  by (induction m k v rule: assoc_set.induct) auto

lemma distinct_assoc_set [simp]: "distinct (map fst m) \<Longrightarrow> distinct (map fst (assoc_set m k v))"
proof (induction m k v rule: assoc_set.induct)
  case (1 k v)
  then show ?case by simp
next
  case (2 k' v' m k v)
  then show ?case using keys_assoc_set [of m k v] by (auto simp: image_iff)
qed

lemma adj_assoc_set [simp]: "adj (assoc_set m k v) k' = (if k' = k then v else adj m k')"
  by (simp add: adj_def)

lemma adj_Nil [simp]: "adj [] k = []"
  by (simp add: adj_def)

lemma adj_in_graph:
  assumes "x \<in> set (adj g k)"
  shows "\<exists>v. (k, v) \<in> set g \<and> x \<in> set v"
proof (cases "map_of g k")
  case None
  with assms show ?thesis by (simp add: adj_def)
next
  case (Some v)
  with assms have "x \<in> set v" by (simp add: adj_def)
  moreover from Some have "(k, v) \<in> set g" by (rule map_of_SomeD)
  ultimately show ?thesis by blast
qed

section \<open>The traversal loop\<close>

lemma walk_out_subset: "set out \<subseteq> set (walk g st out)"
  by (induction g st out rule: walk.induct) auto

lemma walk_stack_subset: "set st \<subseteq> set (walk g st out)"
proof (induction g st out rule: walk.induct)
  case (1 g out)
  then show ?case by simp
next
  case (2 g cur stack out)
  show ?case
  proof (cases "cur \<in> set out")
    case True
    with 2 walk_out_subset [of out g stack] show ?thesis by auto
  next
    case False
    with 2 walk_out_subset [of "out @ [cur]" g "rev (adj g cur) @ stack"] show ?thesis by auto
  qed
qed

lemma walk_distinct: "distinct out \<Longrightarrow> distinct (walk g st out)"
  by (induction g st out rule: walk.induct) auto

lemma walk_sound: "set (walk g st out) \<subseteq> set out \<union> (requires g)\<^sup>* `` set st"
proof (induction g st out rule: walk.induct)
  case (1 g out)
  then show ?case by simp
next
  case (2 g cur stack out)
  show ?case
  proof (cases "cur \<in> set out")
    case True
    with 2 show ?thesis by auto
  next
    case False
    have "(requires g)\<^sup>* `` set (rev (adj g cur) @ stack) \<subseteq> (requires g)\<^sup>* `` set (cur # stack)"
    proof
      fix v assume "v \<in> (requires g)\<^sup>* `` set (rev (adj g cur) @ stack)"
      then obtain s where s: "s \<in> set (adj g cur) \<union> set stack" "(s, v) \<in> (requires g)\<^sup>*"
        by auto
      show "v \<in> (requires g)\<^sup>* `` set (cur # stack)"
      proof (cases "s \<in> set stack")
        case True
        with s show ?thesis by auto
      next
        case False
        with s have "(cur, s) \<in> requires g" by (simp add: requires_def)
        with s have "(cur, v) \<in> (requires g)\<^sup>*" by (meson converse_rtrancl_into_rtrancl)
        then show ?thesis by auto
      qed
    qed
    moreover from False 2 have "set (walk g (rev (adj g cur) @ stack) (out @ [cur]))
        \<subseteq> set (out @ [cur]) \<union> (requires g)\<^sup>* `` set (rev (adj g cur) @ stack)"
      by simp
    moreover have "cur \<in> (requires g)\<^sup>* `` set (cur # stack)" by auto
    moreover from False have "walk g (cur # stack) out
        = walk g (rev (adj g cur) @ stack) (out @ [cur])" by simp
    ultimately show ?thesis by (simp add: subset_iff del: walk.simps) blast
  qed
qed

lemma walk_closed:
  "(\<forall>x \<in> set out. set (adj g x) \<subseteq> set out \<union> set st) \<Longrightarrow>
   (\<forall>x \<in> set (walk g st out). set (adj g x) \<subseteq> set (walk g st out))"
proof (induction g st out rule: walk.induct)
  case (1 g out)
  then show ?case by simp
next
  case (2 g cur stack out)
  show ?case
  proof (cases "cur \<in> set out")
    case True
    then have "\<forall>x \<in> set out. set (adj g x) \<subseteq> set out \<union> set stack"
      using "2.prems" by auto
    with True 2 show ?thesis by simp
  next
    case False
    have "\<forall>x \<in> set (out @ [cur]). set (adj g x) \<subseteq> set (out @ [cur]) \<union> set (rev (adj g cur) @ stack)"
      using "2.prems" by auto
    with False 2 show ?thesis by simp
  qed
qed

lemma walk_reachable: "set (walk g st []) = (requires g)\<^sup>* `` set st"
proof
  show "set (walk g st []) \<subseteq> (requires g)\<^sup>* `` set st"
    using walk_sound [of g st "[]"] by simp
  show "(requires g)\<^sup>* `` set st \<subseteq> set (walk g st [])"
  proof
    fix v assume "v \<in> (requires g)\<^sup>* `` set st"
    then obtain s where s: "s \<in> set st" "(s, v) \<in> (requires g)\<^sup>*" by auto
    have closed: "\<forall>x \<in> set (walk g st []). set (adj g x) \<subseteq> set (walk g st [])"
      by (rule walk_closed) simp
    from s(2) have "s \<in> set (walk g st []) \<Longrightarrow> v \<in> set (walk g st [])"
    proof (induction rule: rtrancl_induct)
      case base
      then show ?case .
    next
      case (step y z)
      then have "y \<in> set (walk g st [])" by simp
      moreover from step have "z \<in> set (adj g y)" by (simp add: requires_def)
      ultimately show ?case using closed by blast
    qed
    with s walk_stack_subset [of st g "[]"] show "v \<in> set (walk g st [])" by auto
  qed
qed

lemma walk_steps_enough: "\<exists>n. walk_steps n g st out = Some (walk g st out)"
proof (induction g st out rule: walk.induct)
  case (1 g out)
  then show ?case by simp
next
  case (2 g cur stack out)
  show ?case
  proof (cases "cur \<in> set out")
    case True
    with 2 obtain n where "walk_steps n g stack out = Some (walk g stack out)" by auto
    with True have "walk_steps (Suc n) g (cur # stack) out = Some (walk g (cur # stack) out)"
      by simp
    then show ?thesis ..
  next
    case False
    with 2 obtain n where "walk_steps n g (rev (adj g cur) @ stack) (out @ [cur])
        = Some (walk g (rev (adj g cur) @ stack) (out @ [cur]))" by auto
    with False have "walk_steps (Suc n) g (cur # stack) out = Some (walk g (cur # stack) out)"
      by simp
    then show ?thesis ..
  qed
qed

lemma set_fold_removeAll: "set (fold (\<lambda>d out. removeAll d out) ds xs) = set xs - set ds"
  by (induction ds arbitrary: xs) auto

section \<open>The requires-map and its transpose\<close>

lemma add_distinct_keys: "distinct (map fst out) \<Longrightarrow> distinct (map fst (add out code reqs))"
proof -
  have step: "distinct (map fst m) \<Longrightarrow>
      distinct (map fst (fold (\<lambda>r m. assoc_set m key (set_add (adj m key) (normalize r))) rs m))"
    for rs key and m :: graph
    by (induction rs arbitrary: m) auto
  assume "distinct (map fst out)"
  then show ?thesis unfolding add_def Let_def by (auto intro!: step)
qed

lemma prereqMap_distinct_keys: "distinct (map fst (prereqMap ap))"
proof -
  have "distinct (map fst m) \<Longrightarrow>
      distinct (map fst (fold (\<lambda>c out. add out (courseCode c) (prerequisites c)) cs m))"
    for cs and m :: graph
    by (induction cs arbitrary: m) (auto simp: add_distinct_keys)
  from this [of "[]"] show ?thesis by (cases ap) (simp_all add: prereqMap_def)
qed

lemma add_keys: "fst ` set (add out code reqs) \<subseteq> insert (normalize code) (fst ` set out)"
proof -
  have step: "fst ` set (fold (\<lambda>r m. assoc_set m key (set_add (adj m key) (normalize r))) rs m)
      \<subseteq> insert key (fst ` set m)" for rs key and m :: graph
  proof (induction rs arbitrary: m)
    case Nil
    then show ?case by auto
  next
    case (Cons r rs)
    from Cons [of "assoc_set m key (set_add (adj m key) (normalize r))"]
    show ?case by (auto simp: keys_assoc_set)
  qed
  show ?thesis
  proof (cases "map_of out (normalize code) = None")
    case True
    with step [of "normalize code" _ "assoc_set out (normalize code) []"]
    show ?thesis unfolding add_def Let_def by (auto simp: keys_assoc_set)
  next
    case False
    with step [of "normalize code" _ out]
    show ?thesis unfolding add_def Let_def by auto
  qed
qed

lemma add_no_empty_key: "[] \<notin> fst ` set out \<Longrightarrow> [] \<notin> fst ` set (add out code reqs)"
proof (cases "normalize code = []")
  case True
  assume "[] \<notin> fst ` set out"
  with True show ?thesis by (simp add: add_def)
next
  case False
  assume "[] \<notin> fst ` set out"
  with False add_keys [of out code reqs] show ?thesis by auto
qed

lemma prereqMap_no_empty_key: "map_of (prereqMap ap) [] = None"
proof -
  have "[] \<notin> fst ` set m \<Longrightarrow>
      [] \<notin> fst ` set (fold (\<lambda>c out. add out (courseCode c) (prerequisites c)) cs m)"
    for cs and m :: graph
    by (induction cs arbitrary: m) (simp_all add: add_no_empty_key)
  from this [of "[]"] have "[] \<notin> fst ` set (prereqMap ap)"
    by (cases ap) (simp_all add: prereqMap_def)
  then show ?thesis by (simp add: map_of_eq_None_iff)
qed

lemma dependents_inner:
  "set (adj (fold (\<lambda>r m'. (let m1 = (if map_of m' r = None then assoc_set m' r [] else m')
                           in assoc_set m1 r (set_add (adj m1 r) c))) reqs m) k)
   = set (adj m k) \<union> (if k \<in> set reqs then {c} else {})"
proof (induction reqs arbitrary: m)
  case Nil
  then show ?case by simp
next
  case (Cons r reqs)
  have one: "set (adj (let m1 = (if map_of m r = None then assoc_set m r [] else m)
                           in assoc_set m1 r (set_add (adj m1 r) c)) k)
             = set (adj m k) \<union> (if k = r then {c} else {})"
    by (auto simp: Let_def adj_def)
  show ?case
    unfolding fold_Cons comp_def Cons.IH one by auto
qed

lemma dependents_outer:
  "set (adj (fold (\<lambda>entry m.
             fold (\<lambda>r m'. (let m1 = (if map_of m' r = None then assoc_set m' r [] else m')
                           in assoc_set m1 r (set_add (adj m1 r) (fst entry))))
                  (snd entry) m) pm m0) k)
   = set (adj m0 k) \<union> {c. \<exists>reqs. (c, reqs) \<in> set pm \<and> k \<in> set reqs}"
proof (induction pm arbitrary: m0)
  case Nil
  then show ?case by simp
next
  case (Cons e pm)
  show ?case
    unfolding fold_Cons comp_def Cons.IH dependents_inner
    by (cases e) auto
qed

lemma adj_dependentsAdj:
  "distinct (map fst pm) \<Longrightarrow> set (adj (dependentsAdj pm) k) = {c. k \<in> set (adj pm c)}"
proof -
  assume d: "distinct (map fst pm)"
  have "{c. \<exists>reqs. (c, reqs) \<in> set pm \<and> k \<in> set reqs} = {c. k \<in> set (adj pm c)}"
  proof (rule set_eqI, rule iffI)
    fix c assume "c \<in> {c. \<exists>reqs. (c, reqs) \<in> set pm \<and> k \<in> set reqs}"
    then obtain reqs where "(c, reqs) \<in> set pm" "k \<in> set reqs" by blast
    with d have "map_of pm c = Some reqs" by simp
    with \<open>k \<in> set reqs\<close> show "c \<in> {c. k \<in> set (adj pm c)}" by (simp add: adj_def)
  next
    fix c assume "c \<in> {c. k \<in> set (adj pm c)}"
    then show "c \<in> {c. \<exists>reqs. (c, reqs) \<in> set pm \<and> k \<in> set reqs}"
      using adj_in_graph [of k pm c] by simp
  qed
  then show ?thesis unfolding dependentsAdj_def dependents_outer by simp
qed

lemma requires_dependentsAdj:
  "distinct (map fst pm) \<Longrightarrow> requires (dependentsAdj pm) = (requires pm)\<inverse>"
  by (auto simp: requires_def adj_dependentsAdj)

lemma ancestors_set:
  "q \<noteq> [] \<Longrightarrow> set (allPrereqAncestors g (Some q)) = (requires g)\<^sup>+ `` {q}"
proof -
  assume "q \<noteq> []"
  then have "set (allPrereqAncestors g (Some q)) = (requires g)\<^sup>* `` set (adj g q)"
    by (simp add: allPrereqAncestors_def noHover_def walk_reachable)
  also have "set (adj g q) = requires g `` {q}" by (auto simp: requires_def)
  also have "(requires g)\<^sup>* `` (requires g `` {q}) = (requires g)\<^sup>+ `` {q}"
  proof -
    have "(requires g)\<^sup>+ = requires g O (requires g)\<^sup>*" by (rule trancl_unfold_left)
    then show ?thesis by (simp add: relcomp_Image)
  qed
  finally show ?thesis .
qed


lemma dependents_set:
  assumes "q \<noteq> []" and "distinct (map fst pm)"
  shows "set (allDependents (dependentsAdj pm) (Some q)) = ((requires pm)\<^sup>+)\<inverse> `` {q}"
proof -
  from assms(1) have "set (allDependents (dependentsAdj pm) (Some q))
      = (requires (dependentsAdj pm))\<^sup>* `` set (adj (dependentsAdj pm) q)"
    by (simp add: allDependents_def noHover_def walk_reachable)
  also have "set (adj (dependentsAdj pm) q) = requires (dependentsAdj pm) `` {q}"
    by (auto simp: requires_def)
  also have "(requires (dependentsAdj pm))\<^sup>* `` (requires (dependentsAdj pm) `` {q})
      = (requires (dependentsAdj pm))\<^sup>+ `` {q}"
  proof -
    have "(requires (dependentsAdj pm))\<^sup>+
        = requires (dependentsAdj pm) O (requires (dependentsAdj pm))\<^sup>*"
      by (rule trancl_unfold_left)
    then show ?thesis by (simp add: relcomp_Image)
  qed
  also have "(requires (dependentsAdj pm))\<^sup>+ = ((requires pm)\<^sup>+)\<inverse>"
    using assms(2) by (simp add: requires_dependentsAdj trancl_converse)
  finally show ?thesis .
qed

lemma trancl_via_first: "((q, v) \<in> r\<^sup>+) = (\<exists>d. (q, d) \<in> r \<and> (d, v) \<in> r\<^sup>*)"
  by (metis rtranclD rtrancl_into_trancl2 tranclD trancl_into_rtrancl)

lemma trancl_via_last: "((v, q) \<in> r\<^sup>+) = (\<exists>d. (d, q) \<in> r \<and> (v, d) \<in> r\<^sup>*)"
  by (metis rtrancl_into_trancl1 tranclD2)

text \<open>
  Claim C6. For the requires-map built from any study plan and every queried code \<open>q\<close>
  (for the dependents a non-empty string: an empty hovered code counts as none): the direct
  prerequisites are the adjacency of \<open>q\<close> in the map (empty if \<open>q\<close> is absent); the
  transitive ancestors are exactly the codes reachable from a direct prerequisite of
  \<open>q\<close> along requires-edges; the indirect prerequisites are the ancestors minus the
  direct ones; and the same holds for dependents over the transposed edges. For the plan
  with edges \<open>A -> B\<close>, \<open>B -> C\<close>, code \<open>C\<close> has direct prerequisite \<open>B\<close> and indirect
  prerequisite \<open>A\<close>, and \<open>A\<close> has direct dependent \<open>B\<close> and indirect dependent \<open>C\<close>.
\<close>

theorem prerequisite_queries:
  fixes ap :: "StudyPlan option" and q :: string
  defines "pm \<equiv> prereqMap ap"
  defines "dm \<equiv> dependentsAdj (prereqMap ap)"
  shows
  "directPrereqs pm (Some q) = (case map_of pm q of None \<Rightarrow> [] | Some s \<Rightarrow> s)
   \<and> set (directPrereqs pm (Some q)) = {r. (q, r) \<in> requires pm}
   \<and> set (allPrereqAncestors pm (Some q))
       = {v. \<exists>d \<in> set (directPrereqs pm (Some q)). (d, v) \<in> (requires pm)\<^sup>*}
   \<and> set (indirectPrereqs pm (Some q))
       = set (allPrereqAncestors pm (Some q)) - set (directPrereqs pm (Some q))
   \<and> (q \<noteq> [] \<longrightarrow>
        directDependents dm (Some q) = (case map_of dm q of None \<Rightarrow> [] | Some s \<Rightarrow> s)
      \<and> set (directDependents dm (Some q)) = {c. (c, q) \<in> requires pm}
      \<and> set (allDependents dm (Some q))
          = {v. \<exists>d \<in> set (directDependents dm (Some q)). (v, d) \<in> (requires pm)\<^sup>*}
      \<and> set (indirectDependents dm (Some q))
          = set (allDependents dm (Some q)) - set (directDependents dm (Some q)))
   \<and> directPrereqs (prereqMap (Some planABC)) (Some ''C'') = [''B'']
   \<and> indirectPrereqs (prereqMap (Some planABC)) (Some ''C'') = [''A'']
   \<and> directDependents (dependentsAdj (prereqMap (Some planABC))) (Some ''A'') = [''B'']
   \<and> indirectDependents (dependentsAdj (prereqMap (Some planABC))) (Some ''A'') = [''C'']"
proof -
  have dk: "distinct (map fst pm)" unfolding pm_def by (rule prereqMap_distinct_keys)
  have ex1: "directPrereqs (prereqMap (Some planABC)) (Some ''C'') = [''B'']" by code_simp
  have ex2: "indirectPrereqs (prereqMap (Some planABC)) (Some ''C'') = [''A'']" by code_simp
  have ex3: "directDependents (dependentsAdj (prereqMap (Some planABC))) (Some ''A'') = [''B'']"
    by code_simp
  have ex4: "indirectDependents (dependentsAdj (prereqMap (Some planABC))) (Some ''A'') = [''C'']"
    by code_simp
  have s1: "set (adj pm q) = {r. (q, r) \<in> requires pm}" by (simp add: requires_def)
  have d1: "directPrereqs pm (Some q) = adj pm q"
  proof (cases "q = []")
    case True
    then show ?thesis
      using prereqMap_no_empty_key [of ap]
      by (simp add: directPrereqs_def noHover_def adj_def pm_def)
  next
    case False
    then show ?thesis by (simp add: directPrereqs_def noHover_def)
  qed
  have a1: "set (allPrereqAncestors pm (Some q))
        = {v. \<exists>d \<in> set (adj pm q). (d, v) \<in> (requires pm)\<^sup>*}"
  proof (cases "q = []")
    case True
    then show ?thesis
      using prereqMap_no_empty_key [of ap]
      by (simp add: allPrereqAncestors_def noHover_def adj_def pm_def)
  next
    case False
    show ?thesis
      unfolding ancestors_set [OF False] s1 using trancl_via_first [of q _ "requires pm"] by auto
  qed
  have pre: "directPrereqs pm (Some q) = (case map_of pm q of None \<Rightarrow> [] | Some s \<Rightarrow> s)
   \<and> set (directPrereqs pm (Some q)) = {r. (q, r) \<in> requires pm}
   \<and> set (allPrereqAncestors pm (Some q))
       = {v. \<exists>d \<in> set (directPrereqs pm (Some q)). (d, v) \<in> (requires pm)\<^sup>*}
   \<and> set (indirectPrereqs pm (Some q))
       = set (allPrereqAncestors pm (Some q)) - set (directPrereqs pm (Some q))"
    unfolding indirectPrereqs_def set_fold_removeAll
    using s1 a1 d1 by (simp add: adj_def)
  have dep: "directDependents dm (Some q) = (case map_of dm q of None \<Rightarrow> [] | Some s \<Rightarrow> s)
      \<and> set (directDependents dm (Some q)) = {c. (c, q) \<in> requires pm}
      \<and> set (allDependents dm (Some q))
          = {v. \<exists>d \<in> set (directDependents dm (Some q)). (v, d) \<in> (requires pm)\<^sup>*}
      \<and> set (indirectDependents dm (Some q))
          = set (allDependents dm (Some q)) - set (directDependents dm (Some q))"
    if q: "q \<noteq> []"
  proof -
    from q have d2: "directDependents dm (Some q) = adj dm q"
      by (simp add: directDependents_def noHover_def)
    have s2: "set (adj dm q) = {c. (c, q) \<in> requires pm}"
      unfolding dm_def pm_def [symmetric] using dk by (simp add: adj_dependentsAdj requires_def)
    have a2: "set (allDependents dm (Some q))
        = {v. \<exists>d \<in> set (adj dm q). (v, d) \<in> (requires pm)\<^sup>*}"
      unfolding s2 unfolding dm_def pm_def [symmetric] dependents_set [OF q dk]
      using trancl_via_last [of _ q "requires pm"] by auto
    show ?thesis
      unfolding indirectDependents_def set_fold_removeAll
      using s2 a2 d2 by (simp add: adj_def)
  qed
  from pre dep ex1 ex2 ex3 ex4 show ?thesis by blast
qed

theorem prerequisite_queries_witness:
  "''C'' \<noteq> []
   \<and> set (allPrereqAncestors (prereqMap (Some planABC)) (Some ''C''))
       = {v. \<exists>d \<in> set (directPrereqs (prereqMap (Some planABC)) (Some ''C'')).
               (d, v) \<in> (requires (prereqMap (Some planABC)))\<^sup>*}
   \<and> allPrereqAncestors (prereqMap (Some planABC)) (Some ''C'') = [''B'', ''A'']
   \<and> set (allDependents (dependentsAdj (prereqMap (Some planABC))) (Some ''A''))
       = {v. \<exists>d \<in> set (directDependents (dependentsAdj (prereqMap (Some planABC))) (Some ''A'')).
               (v, d) \<in> (requires (prereqMap (Some planABC)))\<^sup>*}
   \<and> allDependents (dependentsAdj (prereqMap (Some planABC))) (Some ''A'') = [''B'', ''C'']"
proof -
  have e1: "allPrereqAncestors (prereqMap (Some planABC)) (Some ''C'') = [''B'', ''A'']"
    by code_simp
  have e2: "allDependents (dependentsAdj (prereqMap (Some planABC))) (Some ''A'') = [''B'', ''C'']"
    by code_simp
  have neC: "''C'' \<noteq> []" and neA: "''A'' \<noteq> []" by simp_all
  note qC = prerequisite_queries [of "Some planABC" "''C''"]
  note qA = prerequisite_queries [of "Some planABC" "''A''"]
  note anc = qC [THEN conjunct2, THEN conjunct2, THEN conjunct1]
  note dep = qA [THEN conjunct2, THEN conjunct2, THEN conjunct2, THEN conjunct2,
                 THEN conjunct1, rule_format, OF neA, THEN conjunct2, THEN conjunct2,
                 THEN conjunct1]
  show ?thesis
    by (intro conjI) (rule neC, rule anc, rule e1, rule dep, rule e2)
qed

lemma count_list_distinct:
  "distinct xs \<Longrightarrow> count_list xs v = (if v \<in> set xs then 1 else 0)"
  by (induction xs) auto

text \<open>
  Claim C7. On every graph, cyclic or not, the loop of the ancestor and of the dependent
  traversal leaves after finitely many iterations with the returned list, and every
  node reachable from the queried code by at least one edge occurs in the result exactly
  once, every other node not at all. For the cycle \<open>A -> B\<close>, \<open>B -> A\<close> both traversals
  end and report each of the two codes once.
\<close>

theorem traversals_terminate:
  "(q \<noteq> [] \<longrightarrow>
      (\<exists>n. walk_steps n g (rev (adj g q)) [] = Some (allPrereqAncestors g (Some q)))
    \<and> (\<exists>n. walk_steps n g (rev (adj g q)) [] = Some (allDependents g (Some q)))
    \<and> (\<forall>v. count_list (allPrereqAncestors g (Some q)) v
            = (if (q, v) \<in> (requires g)\<^sup>+ then 1 else 0))
    \<and> (\<forall>v. count_list (allDependents g (Some q)) v
            = (if (q, v) \<in> (requires g)\<^sup>+ then 1 else 0)))
   \<and> distinct (allPrereqAncestors g h) \<and> distinct (allDependents g h)
   \<and> allPrereqAncestors (prereqMap (Some planCycle)) (Some ''A'') = [''B'', ''A'']
   \<and> allPrereqAncestors (prereqMap (Some planCycle)) (Some ''B'') = [''A'', ''B'']
   \<and> allDependents (dependentsAdj (prereqMap (Some planCycle))) (Some ''A'') = [''B'', ''A'']
   \<and> allDependents (dependentsAdj (prereqMap (Some planCycle))) (Some ''B'') = [''A'', ''B'']"
proof -
  have same: "allDependents g h = allPrereqAncestors g h" for h
    by (simp add: allDependents_def allPrereqAncestors_def)
  have dist: "distinct (allPrereqAncestors g h)" for h
    by (simp add: allPrereqAncestors_def walk_distinct)
  have steps: "\<exists>n. walk_steps n g (rev (adj g q)) [] = Some (allPrereqAncestors g (Some q))"
    if "q \<noteq> []"
    using that walk_steps_enough [of g "rev (adj g q)" "[]"]
    by (simp add: allPrereqAncestors_def noHover_def)
  have once: "count_list (allPrereqAncestors g (Some q)) v
            = (if (q, v) \<in> (requires g)\<^sup>+ then 1 else 0)" if "q \<noteq> []" for v
    using count_list_distinct [OF dist, of "Some q" v] ancestors_set [OF that, of g] by auto
  have c1: "allPrereqAncestors (prereqMap (Some planCycle)) (Some ''A'') = [''B'', ''A'']"
    by code_simp
  have c2: "allPrereqAncestors (prereqMap (Some planCycle)) (Some ''B'') = [''A'', ''B'']"
    by code_simp
  have c3: "allDependents (dependentsAdj (prereqMap (Some planCycle))) (Some ''A'') = [''B'', ''A'']"
    by code_simp
  have c4: "allDependents (dependentsAdj (prereqMap (Some planCycle))) (Some ''B'') = [''A'', ''B'']"
    by code_simp
  from steps once dist c1 c2 c3 c4 show ?thesis unfolding same by simp
qed

theorem traversals_terminate_witness:
  "''A'' \<noteq> []
   \<and> (\<exists>n. walk_steps n (prereqMap (Some planCycle)) (rev (adj (prereqMap (Some planCycle)) ''A'')) []
          = Some [''B'', ''A''])
   \<and> walk_steps 3 (prereqMap (Some planCycle)) (rev (adj (prereqMap (Some planCycle)) ''A'')) []
          = Some [''B'', ''A'']
   \<and> count_list (allPrereqAncestors (prereqMap (Some planCycle)) (Some ''A'')) ''B'' = 1
   \<and> count_list (allPrereqAncestors (prereqMap (Some planCycle)) (Some ''A'')) ''A'' = 1
   \<and> (''A'', ''B'') \<in> (requires (prereqMap (Some planCycle)))\<^sup>+"
proof -
  have c1: "allPrereqAncestors (prereqMap (Some planCycle)) (Some ''A'') = [''B'', ''A'']"
    by code_simp
  have c2: "walk_steps 3 (prereqMap (Some planCycle)) (rev (adj (prereqMap (Some planCycle)) ''A'')) []
          = Some [''B'', ''A'']"
    by code_simp
  have ne: "''A'' \<noteq> []" by simp
  have cnt: "count_list [''B'', ''A''] ''B'' = 1" by simp
  from traversals_terminate [of "''A''" "prereqMap (Some planCycle)" "Some ''A''"] ne
  have "(\<exists>n. walk_steps n (prereqMap (Some planCycle)) (rev (adj (prereqMap (Some planCycle)) ''A'')) []
          = Some (allPrereqAncestors (prereqMap (Some planCycle)) (Some ''A'')))"
     and "count_list (allPrereqAncestors (prereqMap (Some planCycle)) (Some ''A'')) ''B''
            = (if (''A'', ''B'') \<in> (requires (prereqMap (Some planCycle)))\<^sup>+ then 1 else 0)"
    by blast+
  with c1 c2 ne cnt show ?thesis by (auto split: if_splits)
qed

text \<open>
  Claim C9. The traversals do not exclude the starting node: when the queried code \<open>q\<close>
  is reachable from one of its own direct prerequisites along requires-edges, \<open>q\<close> is
  a member of its own ancestor set; and when \<open>q\<close> is reachable from one of its direct
  dependents along dependent-edges, \<open>q\<close> is a member of its own dependent set.
\<close>

theorem cycle_includes_start:
  fixes ap :: "StudyPlan option" and q :: string
  defines "pm \<equiv> prereqMap ap"
  defines "dm \<equiv> dependentsAdj (prereqMap ap)"
  shows
  "((\<exists>d \<in> set (directPrereqs pm (Some q)). (d, q) \<in> (requires pm)\<^sup>*)
      \<longrightarrow> q \<in> set (allPrereqAncestors pm (Some q)))
   \<and> ((\<exists>d \<in> set (directDependents dm (Some q)). (q, d) \<in> (requires pm)\<^sup>*)
      \<longrightarrow> q \<in> set (allDependents dm (Some q)))"
proof (intro conjI impI)
  assume "\<exists>d \<in> set (directPrereqs pm (Some q)). (d, q) \<in> (requires pm)\<^sup>*"
  then obtain d where d: "d \<in> set (directPrereqs pm (Some q))" "(d, q) \<in> (requires pm)\<^sup>*"
    by blast
  from d(1) have q: "q \<noteq> []" by (auto simp: directPrereqs_def noHover_def)
  with d(1) have "(q, d) \<in> requires pm"
    by (simp add: directPrereqs_def noHover_def requires_def)
  with d(2) have "(q, q) \<in> (requires pm)\<^sup>+" by (meson rtrancl_into_trancl2)
  then show "q \<in> set (allPrereqAncestors pm (Some q))"
    unfolding ancestors_set [OF q] by simp
next
  have dk: "distinct (map fst pm)" unfolding pm_def by (rule prereqMap_distinct_keys)
  assume "\<exists>d \<in> set (directDependents dm (Some q)). (q, d) \<in> (requires pm)\<^sup>*"
  then obtain d where d: "d \<in> set (directDependents dm (Some q))" "(q, d) \<in> (requires pm)\<^sup>*"
    by blast
  from d(1) have q: "q \<noteq> []" by (auto simp: directDependents_def noHover_def)
  with d(1) have "d \<in> set (adj (dependentsAdj pm) q)"
    by (simp add: directDependents_def noHover_def dm_def pm_def)
  with dk have "(d, q) \<in> requires pm"
    by (simp add: adj_dependentsAdj requires_def)
  with d(2) have "(q, q) \<in> (requires pm)\<^sup>+" by (meson rtrancl_into_trancl1)
  then show "q \<in> set (allDependents dm (Some q))"
    unfolding dm_def pm_def [symmetric] dependents_set [OF q dk] by simp
qed

theorem cycle_includes_start_witness:
  "(\<exists>d \<in> set (directPrereqs (prereqMap (Some planCycle)) (Some ''A'')).
        (d, ''A'') \<in> (requires (prereqMap (Some planCycle)))\<^sup>*)
   \<and> ''A'' \<in> set (allPrereqAncestors (prereqMap (Some planCycle)) (Some ''A''))
   \<and> (\<exists>d \<in> set (directDependents (dependentsAdj (prereqMap (Some planCycle))) (Some ''A'')).
        (''A'', d) \<in> (requires (prereqMap (Some planCycle)))\<^sup>*)
   \<and> ''A'' \<in> set (allDependents (dependentsAdj (prereqMap (Some planCycle))) (Some ''A''))"
proof -
  have pm: "prereqMap (Some planCycle) = [(''A'', [''B'']), (''B'', [''A''])]" by code_simp
  have d1: "directPrereqs (prereqMap (Some planCycle)) (Some ''A'') = [''B'']" by code_simp
  have d2: "directDependents (dependentsAdj (prereqMap (Some planCycle))) (Some ''A'') = [''B'']"
    by code_simp
  have ba: "(''B'', ''A'') \<in> requires (prereqMap (Some planCycle))"
    unfolding pm by (simp add: requires_def adj_def)
  have ab: "(''A'', ''B'') \<in> requires (prereqMap (Some planCycle))"
    unfolding pm by (simp add: requires_def adj_def)
  have h1: "\<exists>d \<in> set (directPrereqs (prereqMap (Some planCycle)) (Some ''A'')).
        (d, ''A'') \<in> (requires (prereqMap (Some planCycle)))\<^sup>*"
    unfolding d1 using ba by auto
  have h2: "\<exists>d \<in> set (directDependents (dependentsAdj (prereqMap (Some planCycle))) (Some ''A'')).
        (''A'', d) \<in> (requires (prereqMap (Some planCycle)))\<^sup>*"
    unfolding d2 using ab by auto
  from cycle_includes_start [of "Some planCycle" "''A''"] h1 h2
  show ?thesis by blast
qed

section \<open>Schedule solver: the search refines its specification\<close>

lemma map_of_assoc_delete [simp]: "map_of (assoc_delete m k) = (map_of m)(k := None)"
  unfolding assoc_delete_def by (induction m) auto

lemma distinct_assoc_delete [simp]: "distinct (map fst m) \<Longrightarrow> distinct (map fst (assoc_delete m k))"
  unfolding assoc_delete_def by (induction m) auto

lemma find_map_Cons:
  "find P (map ((#) c) xs) = map_option ((#) c) (find (\<lambda>x. P (c # x)) xs)"
  by (induction xs) auto

lemma find_append: "find P (xs @ ys) = (case find P xs of None \<Rightarrow> find P ys | Some x \<Rightarrow> Some x)"
  by (induction xs) auto

lemma search_result_transfer:
  assumes "search_result ts st' found r"
    and "snd st' = snd st"
    and "map_of (fst st') |` (- set ts) = map_of (fst st) |` (- set ts)"
  shows "search_result ts st found r"
proof (cases found)
  case None
  with assms show ?thesis by (simp add: search_result_def)
next
  case (Some picks)
  with assms(1) have len: "length picks = length ts"
    and m: "map_of (fst (snd r)) = map_of (fst st') ++ map_of (rev (zip ts picks))"
    by (simp_all add: search_result_def)
  have dom: "dom (map_of (rev (zip ts picks))) = set ts"
  proof -
    have "dom (map_of (rev (zip ts picks))) = set (map fst (zip ts picks))"
      by (simp add: dom_map_of_conv_image_fst)
    with len show ?thesis by simp
  qed
  have "map_of (fst st') ++ map_of (rev (zip ts picks)) = map_of (fst st) ++ map_of (rev (zip ts picks))"
  proof
    fix k
    show "(map_of (fst st') ++ map_of (rev (zip ts picks))) k
        = (map_of (fst st) ++ map_of (rev (zip ts picks))) k"
    proof (cases "k \<in> set ts")
      case True
      with dom obtain v where "map_of (rev (zip ts picks)) k = Some v" by blast
      then show ?thesis by (simp add: map_add_def)
    next
      case False
      with dom have "map_of (rev (zip ts picks)) k = None" by blast
      moreover from False assms(3) have "map_of (fst st') k = map_of (fst st) k"
        by (metis ComplI restrict_in)
      ultimately show ?thesis by (simp add: map_add_def)
    qed
  qed
  with Some assms m show ?thesis by (simp add: search_result_def)
qed

lemma dfs_spec:
  "search_result ts st (find (acceptable (snd st)) (choices (map cand ts))) (dfs cand ts st)"
  and tryCandidates_spec:
  "search_result (t # ts) st
     (find (acceptable (snd st)) (concat (map (\<lambda>c. map ((#) c) (choices (map cand ts))) secs)))
     (tryCandidates cand t ts secs st)"
proof (induction cand ts st and cand t ts secs st rule: dfs_tryCandidates.induct)
  case (1 cand st)
  show ?case by (simp add: search_result_def)
next
  case (2 cand t ts st)
  then show ?case by simp
next
  case (3 cand t ts st)
  show ?case by (simp add: search_result_def)
next
  case (4 cand t ts sec secs st)
  define blocks where "blocks = blocksForSection sec"
  define rest where "rest = concat (map (\<lambda>c. map ((#) c) (choices (map cand ts))) secs)"
  have split: "find (acceptable (snd st))
      (concat (map (\<lambda>c. map ((#) c) (choices (map cand ts))) (sec # secs)))
      = (case find (\<lambda>x. acceptable (snd st) (sec # x)) (choices (map cand ts)) of
           None \<Rightarrow> find (acceptable (snd st)) rest
         | Some x \<Rightarrow> Some (sec # x))"
    by (simp add: find_append find_map_Cons rest_def split: option.splits)
  show ?case
  proof (cases "blocks \<noteq> [] \<and> isCompatible (snd st) blocks")
    case False
    then have "find (\<lambda>x. acceptable (snd st) (sec # x)) (choices (map cand ts)) = None"
      by (auto simp: find_None_iff blocks_def)
    moreover from False have "tryCandidates cand t ts (sec # secs) st = tryCandidates cand t ts secs st"
      by (auto simp: blocks_def Let_def)
    moreover from False have "search_result (t # ts) st (find (acceptable (snd st)) rest)
        (tryCandidates cand t ts secs st)"
      using 4(1) [OF refl] 4(4) [OF refl] unfolding rest_def blocks_def by blast
    ultimately show ?thesis unfolding split by simp
  next
    case True
    define st1 where "st1 = (assoc_set (fst st) t sec, snd st @ blocks)"
    define r where "r = dfs cand ts st1"
    from True have acc: "(\<lambda>x. acceptable (snd st) (sec # x)) = acceptable (snd st1)"
      by (auto simp: blocks_def st1_def)
    from True have IH1: "search_result ts st1 (find (acceptable (snd st1)) (choices (map cand ts))) r"
      using 4(2) [OF refl] unfolding blocks_def st1_def r_def by simp
    show ?thesis
    proof (cases "find (acceptable (snd st1)) (choices (map cand ts))")
      case (Some x)
      with IH1 have r: "fst r" "length x = length ts"
        "snd (snd r) = snd st1 @ concat (map blocksForSection x)"
        "map_of (fst (snd r)) = map_of (fst st1) ++ map_of (rev (zip ts x))"
        by (simp_all add: search_result_def)
      from True r(1) have res: "tryCandidates cand t ts (sec # secs) st = r"
        by (simp add: blocks_def Let_def r_def st1_def)
      have "map_of (fst (snd r)) = map_of (fst st) ++ map_of (rev (zip (t # ts) (sec # x)))"
        unfolding r(4) by (simp add: st1_def map_add_def fun_eq_iff split: option.splits)
      with r show ?thesis
        unfolding split acc Some res
        by (simp add: search_result_def st1_def blocks_def)
    next
      case None
      with IH1 have r: "\<not> fst r" "snd (snd r) = snd st1"
        "map_of (fst (snd r)) |` (- set ts) = map_of (fst st1) |` (- set ts)"
        by (simp_all add: search_result_def)
      define st3 where "st3 = (assoc_delete (fst (snd r)) t,
                       take (length (snd (snd r)) - length blocks) (snd (snd r)))"
      from True r(1) have res: "tryCandidates cand t ts (sec # secs) st = tryCandidates cand t ts secs st3"
        by (simp add: blocks_def Let_def r_def st1_def st3_def)
      from True r(1) have IH2: "search_result (t # ts) st3 (find (acceptable (snd st3)) rest)
          (tryCandidates cand t ts secs st3)"
        using 4(3) [OF refl _ _ refl] unfolding rest_def blocks_def st1_def r_def st3_def by simp
      have cb: "snd st3 = snd st" by (simp add: st3_def r(2) st1_def)
      have fr: "map_of (fst st3) |` (- set (t # ts)) = map_of (fst st) |` (- set (t # ts))"
      proof
        fix k
        show "(map_of (fst st3) |` (- set (t # ts))) k = (map_of (fst st) |` (- set (t # ts))) k"
        proof (cases "k \<in> set (t # ts)")
          case True
          then show ?thesis by simp
        next
          case False
          then have "k \<noteq> t" "k \<notin> set ts" by auto
          from r(3) \<open>k \<notin> set ts\<close> have "map_of (fst (snd r)) k = map_of (fst st1) k"
            by (metis ComplI restrict_in)
          with \<open>k \<noteq> t\<close> False show ?thesis by (simp add: st3_def st1_def)
        qed
      qed
      from IH2 cb have "search_result (t # ts) st3 (find (acceptable (snd st)) rest)
          (tryCandidates cand t ts secs st3)" by simp
      from search_result_transfer [OF this cb fr]
      show ?thesis unfolding split acc None res by simp
    qed
  qed
qed


lemma dfs_distinct:
  "distinct (map fst (fst st)) \<Longrightarrow> distinct (map fst (fst (snd (dfs cand ts st))))"
  and tryCandidates_distinct:
  "distinct (map fst (fst st)) \<Longrightarrow> distinct (map fst (fst (snd (tryCandidates cand t ts secs st))))"
proof (induction cand ts st and cand t ts secs st rule: dfs_tryCandidates.induct)
  case (1 cand st)
  then show ?case by simp
next
  case (2 cand t ts st)
  then show ?case by simp
next
  case (3 cand t ts st)
  then show ?case by simp
next
  case (4 cand t ts sec secs st)
  define blocks where "blocks = blocksForSection sec"
  define r where "r = dfs cand ts (assoc_set (fst st) t sec, snd st @ blocks)"
  show ?case
  proof (cases "blocks \<noteq> [] \<and> isCompatible (snd st) blocks")
    case False
    then have "tryCandidates cand t ts (sec # secs) st = tryCandidates cand t ts secs st"
      by (auto simp: blocks_def Let_def)
    moreover from False have "distinct (map fst (fst (snd (tryCandidates cand t ts secs st))))"
      using 4(1) [OF refl _ "4.prems"] 4(4) [OF refl _ _ "4.prems"] unfolding blocks_def by blast
    ultimately show ?thesis by simp
  next
    case True
    then have dr: "distinct (map fst (fst (snd r)))"
      using 4(2) [OF refl] "4.prems" unfolding blocks_def r_def by simp
    show ?thesis
    proof (cases "fst r")
      case True
      with \<open>blocks \<noteq> [] \<and> isCompatible (snd st) blocks\<close>
      have "tryCandidates cand t ts (sec # secs) st = r"
        by (simp add: blocks_def Let_def r_def)
      with dr show ?thesis by simp
    next
      case False
      with \<open>blocks \<noteq> [] \<and> isCompatible (snd st) blocks\<close>
      have "tryCandidates cand t ts (sec # secs) st
          = tryCandidates cand t ts secs (assoc_delete (fst (snd r)) t,
                       take (length (snd (snd r)) - length blocks) (snd (snd r)))"
        by (simp add: blocks_def Let_def r_def)
      moreover from False \<open>blocks \<noteq> [] \<and> isCompatible (snd st) blocks\<close> dr
      have "distinct (map fst (fst (snd (tryCandidates cand t ts secs
               (assoc_delete (fst (snd r)) t,
                take (length (snd (snd r)) - length blocks) (snd (snd r)))))))"
        using 4(3) [OF refl _ _ refl] unfolding blocks_def r_def by simp
      ultimately show ?thesis by simp
    qed
  qed
qed

lemma isCompatible_append:
  "isCompatible (p @ q) x \<longleftrightarrow> isCompatible p x \<and> isCompatible q x"
  by (auto simp: isCompatible_iff)

lemma acceptable_iff:
  "acceptable placed c \<longleftrightarrow>
     (\<forall>s \<in> set c. blocksForSection s \<noteq> [] \<and> isCompatible placed (blocksForSection s))
     \<and> sorted_wrt (\<lambda>a b. isCompatible (blocksForSection a) (blocksForSection b)) c"
  by (induction c arbitrary: placed) (auto simp: isCompatible_append)

lemma acceptable_Nil_iff:
  "acceptable [] c \<longleftrightarrow>
     (\<forall>s \<in> set c. blocksForSection s \<noteq> [])
     \<and> (\<forall>i j. i < j \<and> j < length c \<longrightarrow>
           (\<forall>a \<in> set (blocksForSection (c ! i)). \<forall>b \<in> set (blocksForSection (c ! j)). \<not> overlap a b))"
proof -
  have "isCompatible [] x" for x by (simp add: isCompatible_iff)
  then have "acceptable [] c \<longleftrightarrow> (\<forall>s \<in> set c. blocksForSection s \<noteq> [])
     \<and> sorted_wrt (\<lambda>a b. isCompatible (blocksForSection a) (blocksForSection b)) c"
    by (simp add: acceptable_iff)
  also have "sorted_wrt (\<lambda>a b. isCompatible (blocksForSection a) (blocksForSection b)) c
     \<longleftrightarrow> (\<forall>i j. i < j \<and> j < length c \<longrightarrow>
           (\<forall>a \<in> set (blocksForSection (c ! i)). \<forall>b \<in> set (blocksForSection (c ! j)). \<not> overlap a b))"
    unfolding sorted_wrt_iff_nth_less isCompatible_iff using overlap_sym by blast
  finally show ?thesis .
qed

lemma choices_iff: "c \<in> set (choices css) \<longleftrightarrow> list_all2 (\<lambda>x cs. x \<in> set cs) c css"
proof (induction css arbitrary: c)
  case Nil
  then show ?case by auto
next
  case (Cons cs css)
  then show ?case by (cases c) auto
qed


lemma generateSchedule_outcome:
  fixes st :: scheduler_state
  defines "cand \<equiv> candidatesOf (includeClosed st) (records st)"
  assumes ne: "targetTitles st \<noteq> []"
  shows "case firstAcceptable cand (targetTitles st) of
           None \<Rightarrow> generateSchedule st
                     = st\<lparr> solution := None, conflictCRNs := [],
                            status := ''No conflict-free combination found.'' \<rparr>
         | Some picks \<Rightarrow>
             (\<exists>sol. generateSchedule st
                       = st\<lparr> solution := Some sol, conflictCRNs := findConflicts sol,
                              status := ''Schedule generated.'' \<rparr>
                   \<and> distinct (map fst sol)
                   \<and> length picks = length (targetTitles st)
                   \<and> map_of sol = map_of (rev (zip (targetTitles st) picks)))"
proof -
  define r where "r = dfs cand (targetTitles st) ([], [])"
  have sr: "search_result (targetTitles st) ([], []) (firstAcceptable cand (targetTitles st)) r"
    using dfs_spec [of "targetTitles st" "([], [])" cand] by (simp add: r_def firstAcceptable_def)
  have dr: "distinct (map fst (fst (snd r)))"
    unfolding r_def by (rule dfs_distinct) simp
  show ?thesis
  proof (cases "firstAcceptable cand (targetTitles st)")
    case None
    with sr have "\<not> fst r" by (simp add: search_result_def)
    with ne have "generateSchedule st
                     = st\<lparr> solution := None, conflictCRNs := [],
                            status := ''No conflict-free combination found.'' \<rparr>"
      by (simp add: generateSchedule_def Let_def r_def cand_def)
    with None show ?thesis by simp
  next
    case (Some picks)
    with sr have r: "fst r" "length picks = length (targetTitles st)"
      "map_of (fst (snd r)) = map_of (rev (zip (targetTitles st) picks))"
      by (simp_all add: search_result_def)
    from ne r(1) have "generateSchedule st
         = st\<lparr> solution := Some (fst (snd r)), conflictCRNs := findConflicts (fst (snd r)),
                status := ''Schedule generated.'' \<rparr>"
      by (simp add: generateSchedule_def Let_def r_def cand_def)
    with dr r Some show ?thesis by auto
  qed
qed

lemma keys_of_picks:
  assumes "length picks = length ts" and "map_of sol = map_of (rev (zip ts picks))"
  shows "fst ` set sol = set ts"
proof -
  have "fst ` set sol = dom (map_of sol)" by (simp add: dom_map_of_conv_image_fst)
  also have "\<dots> = set (map fst (zip ts picks))"
    unfolding assms(2) by (simp add: dom_map_of_conv_image_fst)
  also have "\<dots> = set ts" using assms(1) by simp
  finally show ?thesis .
qed

lemma values_of_picks:
  assumes "distinct (map fst sol)" and "map_of sol = map_of (rev (zip ts picks))"
    and "kv \<in> set sol"
  shows "snd kv \<in> set picks"
proof -
  from assms(1,3) have "map_of sol (fst kv) = Some (snd kv)" by simp
  with assms(2) have "map_of (rev (zip ts picks)) (fst kv) = Some (snd kv)" by simp
  then have "(fst kv, snd kv) \<in> set (rev (zip ts picks))" by (rule map_of_SomeD)
  then have "(fst kv, snd kv) \<in> set (zip ts picks)" by simp
  then show ?thesis by (rule set_zip_rightD)
qed

lemma last_position_pick:
  assumes "length picks = length ts" and "i < length ts"
    and "\<forall>j. i < j \<and> j < length ts \<longrightarrow> ts ! j \<noteq> ts ! i"
  shows "map_of (rev (zip ts picks)) (ts ! i) = Some (picks ! i)"
  using assms
proof (induction ts arbitrary: picks i)
  case Nil
  then show ?case by simp
next
  case (Cons t ts)
  then obtain p ps where picks: "picks = p # ps" by (cases picks) auto
  show ?case
  proof (cases i)
    case 0
    with Cons.prems have "\<forall>j < length ts. ts ! j \<noteq> t" by auto
    then have "t \<notin> set ts" by (auto simp: in_set_conv_nth)
    with Cons.prems(1) picks have "map_of (rev (zip ts ps)) t = None"
      by (metis map_of_eq_None_iff image_set length_Cons map_fst_zip nat.inject set_rev)
    with 0 picks show ?thesis by (simp add: map_add_def)
  next
    case (Suc k)
    have "\<forall>j. k < j \<and> j < length ts \<longrightarrow> ts ! j \<noteq> ts ! k"
    proof (intro allI impI)
      fix j assume "k < j \<and> j < length ts"
      with Cons.prems(3) [rule_format, of "Suc j"] Suc show "ts ! j \<noteq> ts ! k" by simp
    qed
    with Cons.IH [of ps k] Cons.prems picks Suc
    have "map_of (rev (zip ts ps)) (ts ! k) = Some (ps ! k)" by simp
    with Suc picks show ?thesis by (simp add: map_add_def)
  qed
qed

lemma firstAcceptable_SomeD:
  assumes "firstAcceptable cand tts = Some picks"
  shows "length picks = length tts"
    and "\<forall>i < length tts. picks ! i \<in> set (cand (tts ! i)) \<and> blocksForSection (picks ! i) \<noteq> []"
    and "\<forall>i j. i < j \<and> j < length tts \<longrightarrow>
              (\<forall>a \<in> set (blocksForSection (picks ! i)).
                 \<forall>b \<in> set (blocksForSection (picks ! j)). \<not> overlap a b)"
    and "\<exists>n < length (choices (map cand tts)).
              choices (map cand tts) ! n = picks
              \<and> (\<forall>m < n. \<not> acceptable [] (choices (map cand tts) ! m))"
proof -
  from assms obtain n where n: "n < length (choices (map cand tts))"
      "acceptable [] (choices (map cand tts) ! n)" "picks = choices (map cand tts) ! n"
      "\<forall>m < n. \<not> acceptable [] (choices (map cand tts) ! m)"
    unfolding firstAcceptable_def find_Some_iff by blast
  from n(1,3) have "picks \<in> set (choices (map cand tts))" by simp
  then have la: "list_all2 (\<lambda>x cs. x \<in> set cs) picks (map cand tts)"
    by (simp add: choices_iff)
  then show len: "length picks = length tts" by (auto dest: list_all2_lengthD)
  from la have mem: "\<forall>i < length tts. picks ! i \<in> set (cand (tts ! i))"
    by (auto simp: list_all2_conv_all_nth)
  from n(2,3) have acc: "acceptable [] picks" by simp
  then have "\<forall>i < length tts. blocksForSection (picks ! i) \<noteq> []"
    unfolding acceptable_Nil_iff using len by simp
  with mem show "\<forall>i < length tts. picks ! i \<in> set (cand (tts ! i))
      \<and> blocksForSection (picks ! i) \<noteq> []" by simp
  from acc len show "\<forall>i j. i < j \<and> j < length tts \<longrightarrow>
              (\<forall>a \<in> set (blocksForSection (picks ! i)).
                 \<forall>b \<in> set (blocksForSection (picks ! j)). \<not> overlap a b)"
    unfolding acceptable_Nil_iff by simp
  from n(1,3,4) show "\<exists>n < length (choices (map cand tts)).
              choices (map cand tts) ! n = picks
              \<and> (\<forall>m < n. \<not> acceptable [] (choices (map cand tts) ! m))" by blast
qed

text \<open>
  Claim C2, as amended. With no requested title that has candidates, \<open>generateSchedule\<close>
  answers "Select at least one course." and no assignment. Otherwise it either signals
  infeasibility (no assignment, empty conflict set) or returns an assignment whose keys
  are exactly the requested titles with candidates, never fewer: each title is mapped to
  one of its candidates, every chosen section has at least one block, and blocks of
  sections chosen at different positions never overlap (blocks of one and the same
  section are not compared with each other). The assignment is the first acceptable
  choice in depth-first order, titles in the given order and candidates in
  candidate-list order; infeasibility is signalled exactly when no choice is acceptable.
\<close>

theorem generateSchedule_first_choice:
  fixes st :: scheduler_state
  defines "cand \<equiv> candidatesOf (includeClosed st) (records st)"
  defines "tts \<equiv> targetTitles st"
  shows
  "(tts = [] \<longrightarrow>
      generateSchedule st = st\<lparr> status := ''Select at least one course.'', solution := None \<rparr>)
   \<and> (tts \<noteq> [] \<longrightarrow>
        (case firstAcceptable cand tts of
           None \<Rightarrow> generateSchedule st
                     = st\<lparr> solution := None, conflictCRNs := [],
                            status := ''No conflict-free combination found.'' \<rparr>
         | Some picks \<Rightarrow>
             (\<exists>sol. generateSchedule st
                       = st\<lparr> solution := Some sol, conflictCRNs := findConflicts sol,
                              status := ''Schedule generated.'' \<rparr>
                   \<and> distinct (map fst sol) \<and> fst ` set sol = set tts
                   \<and> (\<forall>i < length tts. (\<forall>j. i < j \<and> j < length tts \<longrightarrow> tts ! j \<noteq> tts ! i)
                          \<longrightarrow> map_of sol (tts ! i) = Some (picks ! i)))))
   \<and> (firstAcceptable cand tts = Some picks \<longrightarrow>
        length picks = length tts
        \<and> (\<forall>i < length tts. picks ! i \<in> set (cand (tts ! i))
                               \<and> blocksForSection (picks ! i) \<noteq> [])
        \<and> (\<forall>i j. i < j \<and> j < length tts \<longrightarrow>
              (\<forall>a \<in> set (blocksForSection (picks ! i)).
                 \<forall>b \<in> set (blocksForSection (picks ! j)). \<not> overlap a b))
        \<and> (\<exists>n < length (choices (map cand tts)).
              choices (map cand tts) ! n = picks
              \<and> (\<forall>m < n. \<not> acceptable [] (choices (map cand tts) ! m))))
   \<and> (firstAcceptable cand tts = None \<longleftrightarrow>
        (\<forall>c \<in> set (choices (map cand tts)). \<not> acceptable [] c))
   \<and> (acceptable [] ch \<longleftrightarrow>
        (\<forall>s \<in> set ch. blocksForSection s \<noteq> [])
        \<and> (\<forall>i j. i < j \<and> j < length ch \<longrightarrow>
              (\<forall>a \<in> set (blocksForSection (ch ! i)).
                 \<forall>b \<in> set (blocksForSection (ch ! j)). \<not> overlap a b)))"
proof -
  have empty: "tts = [] \<longrightarrow>
      generateSchedule st = st\<lparr> status := ''Select at least one course.'', solution := None \<rparr>"
    by (simp add: generateSchedule_def tts_def)
  have outcome: "tts \<noteq> [] \<longrightarrow>
        (case firstAcceptable cand tts of
           None \<Rightarrow> generateSchedule st
                     = st\<lparr> solution := None, conflictCRNs := [],
                            status := ''No conflict-free combination found.'' \<rparr>
         | Some picks \<Rightarrow>
             (\<exists>sol. generateSchedule st
                       = st\<lparr> solution := Some sol, conflictCRNs := findConflicts sol,
                              status := ''Schedule generated.'' \<rparr>
                   \<and> distinct (map fst sol) \<and> fst ` set sol = set tts
                   \<and> (\<forall>i < length tts. (\<forall>j. i < j \<and> j < length tts \<longrightarrow> tts ! j \<noteq> tts ! i)
                          \<longrightarrow> map_of sol (tts ! i) = Some (picks ! i))))"
  proof
    assume ne: "tts \<noteq> []"
    note oc = generateSchedule_outcome [of st, folded cand_def tts_def, OF ne]
    show "case firstAcceptable cand tts of
           None \<Rightarrow> generateSchedule st
                     = st\<lparr> solution := None, conflictCRNs := [],
                            status := ''No conflict-free combination found.'' \<rparr>
         | Some picks \<Rightarrow>
             (\<exists>sol. generateSchedule st
                       = st\<lparr> solution := Some sol, conflictCRNs := findConflicts sol,
                              status := ''Schedule generated.'' \<rparr>
                   \<and> distinct (map fst sol) \<and> fst ` set sol = set tts
                   \<and> (\<forall>i < length tts. (\<forall>j. i < j \<and> j < length tts \<longrightarrow> tts ! j \<noteq> tts ! i)
                          \<longrightarrow> map_of sol (tts ! i) = Some (picks ! i)))"
    proof (cases "firstAcceptable cand tts")
      case None
      with oc show ?thesis by simp
    next
      case (Some ps)
      with oc obtain sol where sol: "generateSchedule st
                       = st\<lparr> solution := Some sol, conflictCRNs := findConflicts sol,
                              status := ''Schedule generated.'' \<rparr>"
          "distinct (map fst sol)" "length ps = length tts"
          "map_of sol = map_of (rev (zip tts ps))"
        by auto
      have "fst ` set sol = set tts" using sol(3,4) by (rule keys_of_picks)
      moreover have "\<forall>i < length tts. (\<forall>j. i < j \<and> j < length tts \<longrightarrow> tts ! j \<noteq> tts ! i)
                          \<longrightarrow> map_of sol (tts ! i) = Some (ps ! i)"
        unfolding sol(4) using last_position_pick [OF sol(3)] by blast
      ultimately show ?thesis using Some sol(1,2) by auto
    qed
  qed
  have found: "firstAcceptable cand tts = Some picks \<longrightarrow>
        length picks = length tts
        \<and> (\<forall>i < length tts. picks ! i \<in> set (cand (tts ! i))
                               \<and> blocksForSection (picks ! i) \<noteq> [])
        \<and> (\<forall>i j. i < j \<and> j < length tts \<longrightarrow>
              (\<forall>a \<in> set (blocksForSection (picks ! i)).
                 \<forall>b \<in> set (blocksForSection (picks ! j)). \<not> overlap a b))
        \<and> (\<exists>n < length (choices (map cand tts)).
              choices (map cand tts) ! n = picks
              \<and> (\<forall>m < n. \<not> acceptable [] (choices (map cand tts) ! m)))"
    using firstAcceptable_SomeD [of cand tts picks] by blast
  have none: "firstAcceptable cand tts = None \<longleftrightarrow>
        (\<forall>c \<in> set (choices (map cand tts)). \<not> acceptable [] c)"
    by (auto simp: firstAcceptable_def find_None_iff)
  from empty outcome found none acceptable_Nil_iff [of ch] show ?thesis by blast
qed


theorem generateSchedule_first_choice_witness:
  "targetTitles exBacktrack = [''ICT1201 - Algebra'', ''ICT1201 - Biology'']
   \<and> candidatesOf (includeClosed exBacktrack) (records exBacktrack) ''ICT1201 - Algebra''
       = [secA1, secA2]
   \<and> candidatesOf (includeClosed exBacktrack) (records exBacktrack) ''ICT1201 - Biology''
       = [secB1]
   \<and> firstAcceptable (candidatesOf (includeClosed exBacktrack) (records exBacktrack))
        (targetTitles exBacktrack) = Some [secA2, secB1]
   \<and> generateSchedule exBacktrack
       = exBacktrack\<lparr> solution := Some [(''ICT1201 - Algebra'', secA2), (''ICT1201 - Biology'', secB1)],
                       conflictCRNs := [], status := ''Schedule generated.'' \<rparr>
   \<and> length [secA2, secB1] = length (targetTitles exBacktrack)
   \<and> (\<exists>n < length (choices (map (candidatesOf (includeClosed exBacktrack) (records exBacktrack))
                                  (targetTitles exBacktrack))).
         choices (map (candidatesOf (includeClosed exBacktrack) (records exBacktrack))
                      (targetTitles exBacktrack)) ! n = [secA2, secB1]
         \<and> (\<forall>m < n. \<not> acceptable []
               (choices (map (candidatesOf (includeClosed exBacktrack) (records exBacktrack))
                             (targetTitles exBacktrack)) ! m)))"
proof -
  have tt: "targetTitles exBacktrack = [''ICT1201 - Algebra'', ''ICT1201 - Biology'']"
    by code_simp
  have ca: "candidatesOf (includeClosed exBacktrack) (records exBacktrack) ''ICT1201 - Algebra''
       = [secA1, secA2]" by code_simp
  have cb: "candidatesOf (includeClosed exBacktrack) (records exBacktrack) ''ICT1201 - Biology''
       = [secB1]" by code_simp
  have fa: "firstAcceptable (candidatesOf (includeClosed exBacktrack) (records exBacktrack))
        (targetTitles exBacktrack) = Some [secA2, secB1]" by code_simp
  have gs: "generateSchedule exBacktrack
       = exBacktrack\<lparr> solution := Some [(''ICT1201 - Algebra'', secA2), (''ICT1201 - Biology'', secB1)],
                       conflictCRNs := [], status := ''Schedule generated.'' \<rparr>" by code_simp
  note th = generateSchedule_first_choice [of exBacktrack "[secA2, secB1]"]
  note found = th [THEN conjunct2, THEN conjunct2, THEN conjunct1, rule_format, OF fa]
  note len = found [THEN conjunct1]
  note first = found [THEN conjunct2, THEN conjunct2, THEN conjunct2]
  show ?thesis
    by (intro conjI) (rule tt, rule ca, rule cb, rule fa, rule gs, rule len, rule first)
qed

text \<open>
  The claim C2 as stated fails: a section with two meeting entries at the same time is
  assigned, and its own two blocks overlap.
\<close>

theorem generateSchedule_self_overlap_counterexample:
  "targetTitles exSelfOverlap = [''ICT1201 - Physics'']
   \<and> candidatesOf (includeClosed exSelfOverlap) (records exSelfOverlap) ''ICT1201 - Physics'' = [secTwice]
   \<and> solution (generateSchedule exSelfOverlap) = Some [(''ICT1201 - Physics'', secTwice)]
   \<and> status (generateSchedule exSelfOverlap) = ''Schedule generated.''
   \<and> length (flatBlocks [(''ICT1201 - Physics'', secTwice)]) = 2
   \<and> overlap (flatBlocks [(''ICT1201 - Physics'', secTwice)] ! 0)
              (flatBlocks [(''ICT1201 - Physics'', secTwice)] ! 1)
   \<and> conflictCRNs (generateSchedule exSelfOverlap) = [''205'']"
proof (intro conjI)
  show "targetTitles exSelfOverlap = [''ICT1201 - Physics'']" by code_simp
  show "candidatesOf (includeClosed exSelfOverlap) (records exSelfOverlap) ''ICT1201 - Physics'' = [secTwice]"
    by code_simp
  show "solution (generateSchedule exSelfOverlap) = Some [(''ICT1201 - Physics'', secTwice)]"
    by code_simp
  show "status (generateSchedule exSelfOverlap) = ''Schedule generated.''" by code_simp
  show "length (flatBlocks [(''ICT1201 - Physics'', secTwice)]) = 2" by code_simp
  show "overlap (flatBlocks [(''ICT1201 - Physics'', secTwice)] ! 0)
              (flatBlocks [(''ICT1201 - Physics'', secTwice)] ! 1)" by code_simp
  show "conflictCRNs (generateSchedule exSelfOverlap) = [''205'']" by code_simp
qed

text \<open>
  The claim C1 as stated fails: the only candidate of the requested title has no block,
  no two blocks are incompatible, and the solver reports infeasibility.
\<close>

theorem blockfree_infeasible_counterexample:
  "targetTitles exBlockFree = [''ICT1201 - Ethics'']
   \<and> candidatesOf (includeClosed exBlockFree) (records exBlockFree) ''ICT1201 - Ethics'' = [secNoBlocks]
   \<and> blocksForSection secNoBlocks = []
   \<and> solution (generateSchedule exBlockFree) = None
   \<and> status (generateSchedule exBlockFree) = ''No conflict-free combination found.''"
proof (intro conjI)
  show "targetTitles exBlockFree = [''ICT1201 - Ethics'']" by code_simp
  show "candidatesOf (includeClosed exBlockFree) (records exBlockFree) ''ICT1201 - Ethics'' = [secNoBlocks]"
    by code_simp
  show "blocksForSection secNoBlocks = []" by code_simp
  show "solution (generateSchedule exBlockFree) = None" by code_simp
  show "status (generateSchedule exBlockFree) = ''No conflict-free combination found.''"
    by code_simp
qed


lemma blocksForSection_unparseable:
  assumes "\<forall>m \<in> set (case meetingsFaculty rec of None \<Rightarrow> [] | Some ms \<Rightarrow> ms).
             \<forall>mt. meetingTime m = Some mt \<longrightarrow>
               timeStrToMinutes (beginTime mt) = None \<or> timeStrToMinutes (endTime mt) = None"
  shows "blocksForSection rec = []"
proof -
  have "blocksForMeeting rec m = []"
    if "m \<in> set (case meetingsFaculty rec of None \<Rightarrow> [] | Some ms \<Rightarrow> ms)" for m
  proof (cases "meetingTime m")
    case None
    then show ?thesis by (simp add: blocksForMeeting_def)
  next
    case (Some mt)
    from assms that have "\<forall>mt. meetingTime m = Some mt \<longrightarrow>
               timeStrToMinutes (beginTime mt) = None \<or> timeStrToMinutes (endTime mt) = None"
      by (rule bspec)
    with Some have "timeStrToMinutes (beginTime mt) = None \<or> timeStrToMinutes (endTime mt) = None"
      by simp
    with Some show ?thesis by (auto simp: blocksForMeeting_def split: option.splits)
  qed
  then show ?thesis by (simp add: blocksForSection_def)
qed

lemma generateSchedule_blocks_nonempty:
  assumes "solution (generateSchedule st) = Some sol" and "kv \<in> set sol"
  shows "blocksForSection (snd kv) \<noteq> []"
proof -
  define cand where "cand = candidatesOf (includeClosed st) (records st)"
  have ne: "targetTitles st \<noteq> []"
    using assms(1) by (auto simp: generateSchedule_def)
  note oc = generateSchedule_outcome [of st, folded cand_def, OF ne]
  show ?thesis
  proof (cases "firstAcceptable cand (targetTitles st)")
    case None
    with oc assms(1) show ?thesis by simp
  next
    case (Some picks)
    with oc obtain sol' where sol': "generateSchedule st
                       = st\<lparr> solution := Some sol', conflictCRNs := findConflicts sol',
                              status := ''Schedule generated.'' \<rparr>"
          "distinct (map fst sol')" "map_of sol' = map_of (rev (zip (targetTitles st) picks))"
      by auto
    with assms(1) have "sol' = sol" by simp
    with sol' assms(2) have "snd kv \<in> set picks" using values_of_picks by blast
    then obtain i where "i < length picks" "picks ! i = snd kv" by (auto simp: in_set_conv_nth)
    with firstAcceptable_SomeD(1,2) [OF Some] show ?thesis by auto
  qed
qed

lemma generateSchedule_all_blockfree:
  fixes st :: scheduler_state
  defines "cand \<equiv> candidatesOf (includeClosed st) (records st)"
  assumes "t \<in> set (targetTitles st)" and "\<forall>s \<in> set (cand t). blocksForSection s = []"
  shows "generateSchedule st = st\<lparr> solution := None, conflictCRNs := [],
                            status := ''No conflict-free combination found.'' \<rparr>"
proof -
  from assms(2) have ne: "targetTitles st \<noteq> []" by auto
  note oc = generateSchedule_outcome [of st, folded cand_def, OF ne]
  have "firstAcceptable cand (targetTitles st) = None"
  proof (rule ccontr)
    assume "firstAcceptable cand (targetTitles st) \<noteq> None"
    then obtain picks where p: "firstAcceptable cand (targetTitles st) = Some picks" by auto
    from assms(2) obtain i where i: "i < length (targetTitles st)" "targetTitles st ! i = t"
      by (auto simp: in_set_conv_nth)
    with firstAcceptable_SomeD(2) [OF p] assms(3) show False by auto
  qed
  with oc show ?thesis by simp
qed

text \<open>
  Claim C1, as amended. A section none of whose meeting entries has two parseable
  times contributes zero blocks and is compatible with any blocks, but the solver skips
  it: no section assigned by \<open>generateSchedule\<close> is block-free, and when every
  candidate of some requested title is block-free the solver reports infeasibility
  although no blocks are incompatible. Requested titles without any candidate are
  dropped before the search. A block-free section can still be assigned by a manual
  override.
\<close>

theorem blockfree_sections_are_skipped:
  fixes st :: scheduler_state
  defines "cand \<equiv> candidatesOf (includeClosed st) (records st)"
  shows
  "((\<forall>m \<in> set (case meetingsFaculty rec of None \<Rightarrow> [] | Some ms \<Rightarrow> ms).
        \<forall>mt. meetingTime m = Some mt \<longrightarrow>
          timeStrToMinutes (beginTime mt) = None \<or> timeStrToMinutes (endTime mt) = None)
      \<longrightarrow> blocksForSection rec = [])
   \<and> (blocksForSection rec = [] \<longrightarrow>
        isCompatible placed (blocksForSection rec) \<and> isCompatible (blocksForSection rec) placed
        \<and> flatBlocks (other @ [(ttl, rec)]) = flatBlocks other)
   \<and> (solution (generateSchedule st) = Some sol \<longrightarrow>
        (\<forall>kv \<in> set sol. blocksForSection (snd kv) \<noteq> []))
   \<and> (t \<in> set (targetTitles st) \<and> (\<forall>s \<in> set (cand t). blocksForSection s = []) \<longrightarrow>
        generateSchedule st = st\<lparr> solution := None, conflictCRNs := [],
                                   status := ''No conflict-free combination found.'' \<rparr>)
   \<and> set (targetTitles st) = {t \<in> set (selectedTitles st). cand t \<noteq> []}
   \<and> (solution st = Some cur \<and> find (\<lambda>s. courseReferenceNumber s = c) (cand ttl) = Some rec \<longrightarrow>
        solution (overrideSection st ttl c) = Some (assoc_set cur ttl rec))"
proof -
  have a: "(\<forall>m \<in> set (case meetingsFaculty rec of None \<Rightarrow> [] | Some ms \<Rightarrow> ms).
        \<forall>mt. meetingTime m = Some mt \<longrightarrow>
          timeStrToMinutes (beginTime mt) = None \<or> timeStrToMinutes (endTime mt) = None)
      \<longrightarrow> blocksForSection rec = []"
    using blocksForSection_unparseable [of rec] by blast
  have b: "blocksForSection rec = [] \<longrightarrow>
        isCompatible placed (blocksForSection rec) \<and> isCompatible (blocksForSection rec) placed
        \<and> flatBlocks (other @ [(ttl, rec)]) = flatBlocks other"
    by (simp add: isCompatible_iff flatBlocks_def)
  have c: "solution (generateSchedule st) = Some sol \<longrightarrow>
        (\<forall>kv \<in> set sol. blocksForSection (snd kv) \<noteq> [])"
    using generateSchedule_blocks_nonempty [of st sol] by blast
  have d: "t \<in> set (targetTitles st) \<and> (\<forall>s \<in> set (cand t). blocksForSection s = []) \<longrightarrow>
        generateSchedule st = st\<lparr> solution := None, conflictCRNs := [],
                                   status := ''No conflict-free combination found.'' \<rparr>"
    using generateSchedule_all_blockfree [of t st] unfolding cand_def by blast
  have e: "set (targetTitles st) = {t \<in> set (selectedTitles st). cand t \<noteq> []}"
    by (auto simp: targetTitles_def cand_def)
  have f: "solution st = Some cur \<and> find (\<lambda>s. courseReferenceNumber s = c) (cand ttl) = Some rec \<longrightarrow>
        solution (overrideSection st ttl c) = Some (assoc_set cur ttl rec)"
    by (auto simp: overrideSection_def cand_def Let_def)
  from a b c d e f show ?thesis by blast
qed

theorem blockfree_sections_are_skipped_witness:
  "''ICT1201 - Ethics'' \<in> set (targetTitles exBlockFree)
   \<and> candidatesOf (includeClosed exBlockFree) (records exBlockFree) ''ICT1201 - Ethics''
       = [secNoBlocks]
   \<and> blocksForSection secNoBlocks = []
   \<and> generateSchedule exBlockFree
       = exBlockFree\<lparr> solution := None, conflictCRNs := [],
                       status := ''No conflict-free combination found.'' \<rparr>
   \<and> solution (generateSchedule exBacktrack)
       = Some [(''ICT1201 - Algebra'', secA2), (''ICT1201 - Biology'', secB1)]
   \<and> blocksForSection secA2 \<noteq> [] \<and> blocksForSection secB1 \<noteq> []"
proof -
  have h1: "''ICT1201 - Ethics'' \<in> set (targetTitles exBlockFree)" by code_simp
  have h2: "candidatesOf (includeClosed exBlockFree) (records exBlockFree) ''ICT1201 - Ethics''
       = [secNoBlocks]" by code_simp
  have h2': "blocksForSection secNoBlocks = []" by code_simp
  have h3: "solution (generateSchedule exBacktrack)
       = Some [(''ICT1201 - Algebra'', secA2), (''ICT1201 - Biology'', secB1)]" by code_simp
  note th1 = blockfree_sections_are_skipped [where st = exBlockFree and t = "''ICT1201 - Ethics''"]
  note th2 = blockfree_sections_are_skipped [where st = exBacktrack
      and sol = "[(''ICT1201 - Algebra'', secA2), (''ICT1201 - Biology'', secB1)]"]
  from h2 h2' have all: "\<forall>s \<in> set (candidatesOf (includeClosed exBlockFree) (records exBlockFree)
      ''ICT1201 - Ethics''). blocksForSection s = []" by simp
  from th1 h1 all have "generateSchedule exBlockFree
       = exBlockFree\<lparr> solution := None, conflictCRNs := [],
                       status := ''No conflict-free combination found.'' \<rparr>" by blast
  moreover from th2 h3 have "\<forall>kv \<in> set [(''ICT1201 - Algebra'', secA2), (''ICT1201 - Biology'', secB1)].
         blocksForSection (snd kv) \<noteq> []" by blast
  then have "blocksForSection secA2 \<noteq> [] \<and> blocksForSection secB1 \<noteq> []" by simp
  ultimately show ?thesis using h1 h2 h2' h3 by blast
qed

section \<open>Upload of a section snapshot\<close>

text \<open>
  Claim C8. A snapshot that is an empty array, or neither an array nor an object whose
  \<open>data\<close> field is an array, yields no records; then \<open>ingestJson\<close> only sets the status
  "JSON parsed, but no records found." and leaves records, solution and conflict set as
  they were. This status differs from the one of a successful load and from the one of a
  parse failure. An empty record list has no title keys.
\<close>

theorem ingestJson_no_records:
  "(rawRecords raw = [] \<longrightarrow>
      ingestJson st raw = st\<lparr> status := ''JSON parsed, but no records found.'' \<rparr>
      \<and> records (ingestJson st raw) = records st
      \<and> solution (ingestJson st raw) = solution st
      \<and> conflictCRNs (ingestJson st raw) = conflictCRNs st)
   \<and> rawRecords (RawArray []) = []
   \<and> rawRecords RawOther = []
   \<and> ((\<forall>ys. map_of fs ''data'' \<noteq> Some (RawArray ys)) \<longrightarrow> rawRecords (RawObject fs) = [])
   \<and> (map_of fs ''data'' = Some (RawArray xs) \<longrightarrow> rawRecords (RawObject fs) = xs)
   \<and> rawRecords (RawArray xs) = xs
   \<and> (rawRecords raw \<noteq> [] \<longrightarrow>
        status (ingestJson st raw) \<noteq> ''JSON parsed, but no records found.''
        \<and> records (ingestJson st raw) = rawRecords raw)
   \<and> status (handleFile st (Inl msg)) \<noteq> ''JSON parsed, but no records found.''
   \<and> handleFile st (Inr raw) = ingestJson st raw
   \<and> titles localeCompare inclClosed [] = []"
proof -
  have shape: "(\<forall>ys. map_of fs ''data'' \<noteq> Some (RawArray ys)) \<longrightarrow> rawRecords (RawObject fs) = []"
    by (auto simp: rawRecords_def split: option.splits raw_json.splits)
  show ?thesis
    using shape
    by (simp add: ingestJson_def handleFile_def rawRecords_def titles_def js_sort_def Let_def)
qed

theorem ingestJson_no_records_witness:
  "rawRecords (RawObject [(''rows'', RawArray [secA1])]) = []
   \<and> (\<forall>ys. map_of [(''rows'', RawArray [secA1])] ''data'' \<noteq> Some (RawArray ys))
   \<and> ingestJson exOverride (RawObject [(''rows'', RawArray [secA1])])
       = exOverride\<lparr> status := ''JSON parsed, but no records found.'' \<rparr>
   \<and> records (ingestJson exOverride (RawObject [(''rows'', RawArray [secA1])])) = records exOverride
   \<and> rawRecords (RawArray [secA1]) \<noteq> []
   \<and> status (ingestJson exOverride (RawArray [secA1])) = ''Loaded 1 sections from JSON''"
proof -
  have h: "(\<forall>ys. map_of [(''rows'', RawArray [secA1])] ''data'' \<noteq> Some (RawArray ys))"
    by simp
  have l: "status (ingestJson exOverride (RawArray [secA1])) = ''Loaded 1 sections from JSON''"
    by code_simp
  note th = ingestJson_no_records [where raw = "RawObject [(''rows'', RawArray [secA1])]"
      and fs = "[(''rows'', RawArray [secA1])]" and st = exOverride and xs = "[secA1]"]
  from th h have e: "rawRecords (RawObject [(''rows'', RawArray [secA1])]) = []" by blast
  with th have "ingestJson exOverride (RawObject [(''rows'', RawArray [secA1])])
       = exOverride\<lparr> status := ''JSON parsed, but no records found.'' \<rparr>
      \<and> records (ingestJson exOverride (RawObject [(''rows'', RawArray [secA1])])) = records exOverride"
    by blast
  moreover from th have "rawRecords (RawArray [secA1]) = [secA1]" by blast
  ultimately show ?thesis using h e l by simp
qed


section \<open>Candidate lists\<close>

lemma set_insert_by [simp]: "set (insert_by cmp x ys) = insert x (set ys)"
  by (induction ys) auto

lemma mset_insert_by [simp]: "mset (insert_by cmp x ys) = add_mset x (mset ys)"
  by (induction ys) auto

lemma js_sort_Nil [simp]: "js_sort cmp [] = []"
  by (simp add: js_sort_def)

lemma js_sort_Cons: "js_sort cmp (x # xs) = insert_by cmp x (js_sort cmp xs)"
  by (simp add: js_sort_def)

lemma set_js_sort [simp]: "set (js_sort cmp xs) = set xs"
  by (induction xs) (simp_all add: js_sort_Cons)

lemma mset_js_sort [simp]: "mset (js_sort cmp xs) = mset xs"
  by (induction xs) (simp_all add: js_sort_Cons)

lemma sorted_insert_by:
  assumes total: "\<And>a b. cmp a b \<le> 0 \<or> cmp b a \<le> 0"
    and trans: "\<And>a b c. cmp a b \<le> 0 \<Longrightarrow> cmp b c \<le> 0 \<Longrightarrow> cmp a c \<le> 0"
  shows "sorted_wrt (\<lambda>a b. cmp a b \<le> 0) ys \<Longrightarrow> sorted_wrt (\<lambda>a b. cmp a b \<le> 0) (insert_by cmp x ys)"
proof (induction ys)
  case Nil
  then show ?case by simp
next
  case (Cons y ys)
  show ?case
  proof (cases "cmp x y \<le> 0")
    case True
    with Cons.prems trans show ?thesis by auto
  next
    case False
    with total [of x y] have "cmp y x \<le> 0" by simp
    with False Cons show ?thesis by auto
  qed
qed

lemma sorted_js_sort:
  assumes "\<And>a b. cmp a b \<le> 0 \<or> cmp b a \<le> 0"
    and "\<And>a b c. cmp a b \<le> 0 \<Longrightarrow> cmp b c \<le> 0 \<Longrightarrow> cmp a c \<le> 0"
  shows "sorted_wrt (\<lambda>a b. cmp a b \<le> 0) (js_sort cmp xs)"
proof (induction xs)
  case Nil
  show ?case by simp
next
  case (Cons x xs)
  from sorted_insert_by [of cmp, OF assms Cons] show ?case by (simp add: js_sort_Cons)
qed

lemma filter_insert_by:
  assumes "\<And>y. Q x \<Longrightarrow> Q y \<Longrightarrow> cmp x y \<le> 0"
  shows "filter Q (insert_by cmp x ys) = (if Q x then x # filter Q ys else filter Q ys)"
  using assms by (induction ys) auto

lemma js_sort_stable:
  assumes "\<And>x y. Q x \<Longrightarrow> Q y \<Longrightarrow> cmp x y \<le> 0"
  shows "filter Q (js_sort cmp xs) = filter Q xs"
proof (induction xs)
  case Nil
  show ?case by simp
next
  case (Cons x xs)
  have "filter Q (insert_by cmp x (js_sort cmp xs))
      = (if Q x then x # filter Q (js_sort cmp xs) else filter Q (js_sort cmp xs))"
    by (rule filter_insert_by) (rule assms)
  with Cons show ?case by (simp add: js_sort_Cons)
qed

lemma compareSections_le: "compareSections a b \<le> 0 \<longleftrightarrow> rankBefore a b"
  by (auto simp: compareSections_def rankBefore_def)

lemma rankBefore_total: "rankBefore a b \<or> rankBefore b a"
  by (auto simp: rankBefore_def)

lemma rankBefore_trans: "rankBefore a b \<Longrightarrow> rankBefore b c \<Longrightarrow> rankBefore a c"
  by (auto simp: rankBefore_def)

lemma sameRank_rankBefore: "sameRank x a \<Longrightarrow> sameRank x b \<Longrightarrow> rankBefore a b"
  by (auto simp: sameRank_def rankBefore_def)

lemma groupStep_lookup:
  "(case map_of (groupStep ic m r) k of None \<Rightarrow> [] | Some arr \<Rightarrow> arr)
     = (case map_of m k of None \<Rightarrow> [] | Some arr \<Rightarrow> arr)
       @ (if (ic \<or> openSection r) \<and> titleKey r = k then [r] else [])"
  by (auto simp: groupStep_def Let_def split: option.splits)

lemma group_lookup:
  "(case map_of (foldl (groupStep ic) m recs) k of None \<Rightarrow> [] | Some arr \<Rightarrow> arr)
     = (case map_of m k of None \<Rightarrow> [] | Some arr \<Rightarrow> arr)
       @ filter (\<lambda>r. (ic \<or> openSection r) \<and> titleKey r = k) recs"
proof (induction recs arbitrary: m)
  case Nil
  show ?case by simp
next
  case (Cons r recs)
  show ?case
    unfolding foldl_Cons Cons.IH groupStep_lookup by simp
qed

lemma map_of_map_value:
  "map_of (map (\<lambda>kv. (fst kv, f (snd kv))) m) k = map_option f (map_of m k)"
  by (induction m) auto

lemma candidatesOf_eq:
  "candidatesOf ic recs t
     = js_sort compareSections (filter (\<lambda>r. (ic \<or> openSection r) \<and> titleKey r = t) recs)"
proof -
  have "candidatesOf ic recs t
      = js_sort compareSections
          (case map_of (foldl (groupStep ic) [] recs) t of None \<Rightarrow> [] | Some arr \<Rightarrow> arr)"
    by (simp add: candidatesOf_def titleToSections_def map_of_map_value split: option.splits)
  then show ?thesis unfolding group_lookup by simp
qed

lemma earliestStart_eq:
  "earliestStart r = (if blocksForSection r = [] then 99999
                      else Min (start ` set (blocksForSection r)))"
  using min_list_Min [of "map start (blocksForSection r)"]
  by (simp add: earliestStart_def)


text \<open>
  Claim C4, as amended. The candidate list of a title key is a permutation of the
  sections with that key that pass the open/closed filter, ordered by: open before
  closed; then more available seats first, a missing seats field counting as \<open>-1\<close>
  (after every section with more than \<open>-1\<close> seats, not after sections with fewer);
  then the earlier minimum block start first, a block-less section counting as start
  \<open>99999\<close> (after every section whose first start is below \<open>99999\<close>); sections equal
  in all three keys keep their input order. For \<open>{open, 5 seats, start 0900}\<close>,
  \<open>{closed, 9 seats, start 0800}\<close>, \<open>{open, 3 seats, start 0800}\<close> with closed sections
  included the order is \<open>[open/5/0900, open/3/0800, closed/9/0800]\<close>.
\<close>

theorem candidate_order:
  fixes ic :: bool and recs :: "CourseRecord list" and t :: string
  defines "cl \<equiv> candidatesOf ic recs t"
  defines "offered \<equiv> filter (\<lambda>r. (ic \<or> openSection r) \<and> titleKey r = t) recs"
  shows
  "mset cl = mset offered
   \<and> (\<forall>i j. i < j \<and> j < length cl \<longrightarrow> rankBefore (cl ! i) (cl ! j))
   \<and> (\<forall>x. filter (sameRank x) cl = filter (sameRank x) offered)
   \<and> (rankBefore a b \<longleftrightarrow>
        (openSection a \<and> \<not> openSection b)
        \<or> (openSection a = openSection b
            \<and> (seatsOr b < seatsOr a
                \<or> (seatsOr a = seatsOr b \<and> earliestStart a \<le> earliestStart b))))
   \<and> (rankBefore a b \<or> rankBefore b a)
   \<and> (rankBefore a b \<and> rankBefore b d \<longrightarrow> rankBefore a d)
   \<and> seatsOr a = (case seatsAvailable a of None \<Rightarrow> - 1 | Some v \<Rightarrow> v)
   \<and> earliestStart a = (if blocksForSection a = [] then 99999
                          else Min (start ` set (blocksForSection a)))
   \<and> (seatsAvailable a = None \<and> openSection a = openSection b \<and> - 1 < seatsOr b
        \<longrightarrow> rankBefore b a \<and> \<not> rankBefore a b)
   \<and> (blocksForSection a = [] \<and> openSection a = openSection b \<and> seatsOr a = seatsOr b
        \<and> earliestStart b < 99999
        \<longrightarrow> rankBefore b a \<and> \<not> rankBefore a b)
   \<and> candidatesOf True [secOpen, secClosed, secOpen3] ''ICT1201 - Networks''
       = [secOpen, secOpen3, secClosed]"
proof -
  have cl: "cl = js_sort compareSections offered"
    unfolding cl_def offered_def by (rule candidatesOf_eq)
  have p1: "mset cl = mset offered" by (simp add: cl)
  have "sorted_wrt (\<lambda>a b. compareSections a b \<le> 0) (js_sort compareSections offered)"
    by (rule sorted_js_sort)
       (use rankBefore_total rankBefore_trans in \<open>auto simp: compareSections_le\<close>)
  then have p2: "\<forall>i j. i < j \<and> j < length cl \<longrightarrow> rankBefore (cl ! i) (cl ! j)"
    unfolding cl sorted_wrt_iff_nth_less compareSections_le by blast
  have p3: "\<forall>x. filter (sameRank x) cl = filter (sameRank x) offered"
  proof
    fix x
    show "filter (sameRank x) cl = filter (sameRank x) offered"
      unfolding cl
      by (rule js_sort_stable) (simp add: compareSections_le sameRank_rankBefore)
  qed
  have p4: "rankBefore a b \<longleftrightarrow>
        (openSection a \<and> \<not> openSection b)
        \<or> (openSection a = openSection b
            \<and> (seatsOr b < seatsOr a
                \<or> (seatsOr a = seatsOr b \<and> earliestStart a \<le> earliestStart b)))"
    by (simp add: rankBefore_def)
  have p5: "rankBefore a b \<and> rankBefore b d \<longrightarrow> rankBefore a d"
    using rankBefore_trans by blast
  have p6: "seatsOr a = (case seatsAvailable a of None \<Rightarrow> - 1 | Some v \<Rightarrow> v)"
    by (simp add: seatsOr_def)
  have p7: "seatsAvailable a = None \<and> openSection a = openSection b \<and> - 1 < seatsOr b
        \<longrightarrow> rankBefore b a \<and> \<not> rankBefore a b"
    by (auto simp: rankBefore_def seatsOr_def)
  have p8: "blocksForSection a = [] \<and> openSection a = openSection b \<and> seatsOr a = seatsOr b
        \<and> earliestStart b < 99999
        \<longrightarrow> rankBefore b a \<and> \<not> rankBefore a b"
    by (auto simp: rankBefore_def earliestStart_def)
  have p9: "candidatesOf True [secOpen, secClosed, secOpen3] ''ICT1201 - Networks''
       = [secOpen, secOpen3, secClosed]"
    by code_simp
  from p1 p2 p3 p4 p5 p6 p7 p8 p9 rankBefore_total [of a b] earliestStart_eq [of a]
  show ?thesis by blast
qed

theorem candidate_order_witness:
  "seatsAvailable secNoSeats = None \<and> openSection secNoSeats = openSection secOpen3
   \<and> - 1 < seatsOr secOpen3
   \<and> rankBefore secOpen3 secNoSeats \<and> \<not> rankBefore secNoSeats secOpen3
   \<and> candidatesOf True [secNoSeats, secClosed, secOpen3] ''ICT1201 - Networks''
       = [secOpen3, secNoSeats, secClosed]
   \<and> mset (candidatesOf True [secNoSeats, secClosed, secOpen3] ''ICT1201 - Networks'')
       = mset (filter (\<lambda>r. (True \<or> openSection r) \<and> titleKey r = ''ICT1201 - Networks'')
                 [secNoSeats, secClosed, secOpen3])"
proof -
  have h1: "seatsAvailable secNoSeats = None" by code_simp
  have h2: "openSection secNoSeats = openSection secOpen3" by code_simp
  have h3: "- 1 < seatsOr secOpen3" by code_simp
  have ev: "candidatesOf True [secNoSeats, secClosed, secOpen3] ''ICT1201 - Networks''
       = [secOpen3, secNoSeats, secClosed]" by code_simp
  note th = candidate_order [where ic = True and recs = "[secNoSeats, secClosed, secOpen3]"
      and t = "''ICT1201 - Networks''" and a = secNoSeats and b = secOpen3]
  from th h1 h2 h3 have "rankBefore secOpen3 secNoSeats \<and> \<not> rankBefore secNoSeats secOpen3"
    by blast
  moreover note th [THEN conjunct1]
  ultimately show ?thesis using h1 h2 h3 ev by blast
qed

text \<open>
  The claim C4 as stated fails: a section without a seats field is listed before an
  over-enrolled section with \<open>-2\<close> seats available, not last.
\<close>

theorem candidate_order_missing_seats_counterexample:
  "seatsAvailable secNoSeats = None
   \<and> seatsAvailable secOverfull = Some (- 2)
   \<and> candidatesOf True [secOverfull, secNoSeats] ''ICT1201 - Networks''
       = [secNoSeats, secOverfull]"
proof (intro conjI)
  show "seatsAvailable secNoSeats = None" by code_simp
  show "seatsAvailable secOverfull = Some (- 2)" by code_simp
  show "candidatesOf True [secOverfull, secNoSeats] ''ICT1201 - Networks''
       = [secNoSeats, secOverfull]" by code_simp
qed


section \<open>Manual override\<close>

lemma keys_order_assoc_set:
  "map fst (assoc_set m k v) = (if k \<in> fst ` set m then map fst m else map fst m @ [k])"
  by (induction m k v rule: assoc_set.induct) (auto simp: image_iff)

lemma find_crn_None:
  "find (\<lambda>s. courseReferenceNumber s = c) xs = None
     \<longleftrightarrow> \<not> (\<exists>r \<in> set xs. courseReferenceNumber r = c)"
  by (auto simp: find_None_iff)

lemma find_crn_Some:
  "find (\<lambda>s. courseReferenceNumber s = c) xs = Some pick
     \<Longrightarrow> pick \<in> set xs \<and> courseReferenceNumber pick = c"
  by (auto simp: find_Some_iff)

text \<open>
  Claim C5, as amended. A manual override looks the section identifier up in the
  title's current candidate list, which holds the sections of that title that pass the
  include/exclude-closed filter and nothing else. Without a current assignment, or when
  the identifier is not in that list, the override changes nothing. Otherwise exactly
  the entry of that title is set to the first candidate with this identifier (the entry
  keeps its place, or is added at the end for a new title, and all other entries stay),
  and the conflict set is computed afresh from the resulting assignment.
\<close>

theorem overrideSection_effect:
  fixes st :: scheduler_state and ttl c :: string
  defines "options \<equiv> candidatesOf (includeClosed st) (records st) ttl"
  shows
  "(solution st = None \<or> find (\<lambda>s. courseReferenceNumber s = c) options = None
      \<longrightarrow> overrideSection st ttl c = st)
   \<and> (solution st = Some sol \<and> find (\<lambda>s. courseReferenceNumber s = c) options = Some pick
      \<longrightarrow> overrideSection st ttl c
            = st\<lparr> solution := Some (assoc_set sol ttl pick),
                   conflictCRNs := findConflicts (assoc_set sol ttl pick),
                   status := (if findConflicts (assoc_set sol ttl pick) \<noteq> []
                              then ''Manual override applied (conflicts highlighted).''
                              else ''Manual override applied.'') \<rparr>
          \<and> map_of (assoc_set sol ttl pick) = (map_of sol)(ttl \<mapsto> pick)
          \<and> map fst (assoc_set sol ttl pick)
              = (if ttl \<in> fst ` set sol then map fst sol else map fst sol @ [ttl])
          \<and> courseReferenceNumber pick = c)
   \<and> (find (\<lambda>s. courseReferenceNumber s = c) options = None
        \<longleftrightarrow> \<not> (\<exists>r \<in> set (records st). titleKey r = ttl
                    \<and> (includeClosed st \<or> openSection r) \<and> courseReferenceNumber r = c))
   \<and> (find (\<lambda>s. courseReferenceNumber s = c) options = Some pick
        \<longrightarrow> pick \<in> set (records st) \<and> titleKey pick = ttl
            \<and> (includeClosed st \<or> openSection pick))"
proof -
  have opts: "set options = {r \<in> set (records st). (includeClosed st \<or> openSection r) \<and> titleKey r = ttl}"
    unfolding options_def candidatesOf_eq by auto
  have noop: "solution st = None \<or> find (\<lambda>s. courseReferenceNumber s = c) options = None
      \<longrightarrow> overrideSection st ttl c = st"
    by (auto simp: overrideSection_def options_def split: option.splits)
  have eff: "solution st = Some sol \<and> find (\<lambda>s. courseReferenceNumber s = c) options = Some pick
      \<longrightarrow> overrideSection st ttl c
            = st\<lparr> solution := Some (assoc_set sol ttl pick),
                   conflictCRNs := findConflicts (assoc_set sol ttl pick),
                   status := (if findConflicts (assoc_set sol ttl pick) \<noteq> []
                              then ''Manual override applied (conflicts highlighted).''
                              else ''Manual override applied.'') \<rparr>
          \<and> map_of (assoc_set sol ttl pick) = (map_of sol)(ttl \<mapsto> pick)
          \<and> map fst (assoc_set sol ttl pick)
              = (if ttl \<in> fst ` set sol then map fst sol else map fst sol @ [ttl])
          \<and> courseReferenceNumber pick = c"
    using keys_order_assoc_set [of sol ttl pick] find_crn_Some [of c options pick]
    by (simp add: overrideSection_def options_def Let_def)
  have none: "find (\<lambda>s. courseReferenceNumber s = c) options = None
        \<longleftrightarrow> \<not> (\<exists>r \<in> set (records st). titleKey r = ttl
                    \<and> (includeClosed st \<or> openSection r) \<and> courseReferenceNumber r = c)"
    unfolding find_crn_None opts by auto
  have some: "find (\<lambda>s. courseReferenceNumber s = c) options = Some pick
        \<longrightarrow> pick \<in> set (records st) \<and> titleKey pick = ttl
            \<and> (includeClosed st \<or> openSection pick)"
    using find_crn_Some [of c options pick] opts by auto
  from noop eff none some show ?thesis by blast
qed

theorem overrideSection_effect_witness:
  "solution exOverride = Some [(''ICT1201 - Algebra'', secA1), (''ICT1201 - Networks'', secOpen)]
   \<and> find (\<lambda>s. courseReferenceNumber s = ''303'')
        (candidatesOf (includeClosed exOverride) (records exOverride) ''ICT1201 - Networks'')
       = Some secOpen3
   \<and> overrideSection exOverride ''ICT1201 - Networks'' ''303''
       = exOverride\<lparr> solution := Some [(''ICT1201 - Algebra'', secA1), (''ICT1201 - Networks'', secOpen3)],
                      conflictCRNs := [], status := ''Manual override applied.'' \<rparr>
   \<and> find (\<lambda>s. courseReferenceNumber s = ''999'')
        (candidatesOf (includeClosed exOverride) (records exOverride) ''ICT1201 - Networks'')
       = None
   \<and> overrideSection exOverride ''ICT1201 - Networks'' ''999'' = exOverride"
proof -
  have h1: "solution exOverride = Some [(''ICT1201 - Algebra'', secA1), (''ICT1201 - Networks'', secOpen)]"
    by code_simp
  have h2: "find (\<lambda>s. courseReferenceNumber s = ''303'')
        (candidatesOf (includeClosed exOverride) (records exOverride) ''ICT1201 - Networks'')
       = Some secOpen3" by code_simp
  have h3: "find (\<lambda>s. courseReferenceNumber s = ''999'')
        (candidatesOf (includeClosed exOverride) (records exOverride) ''ICT1201 - Networks'')
       = None" by code_simp
  have e1: "assoc_set [(''ICT1201 - Algebra'', secA1), (''ICT1201 - Networks'', secOpen)]
              ''ICT1201 - Networks'' secOpen3
            = [(''ICT1201 - Algebra'', secA1), (''ICT1201 - Networks'', secOpen3)]"
    by simp
  have e2: "findConflicts [(''ICT1201 - Algebra'', secA1), (''ICT1201 - Networks'', secOpen3)] = []"
    by code_simp
  note th1 = overrideSection_effect [where st = exOverride and ttl = "''ICT1201 - Networks''"
      and c = "''303''" and pick = secOpen3
      and sol = "[(''ICT1201 - Algebra'', secA1), (''ICT1201 - Networks'', secOpen)]"]
  note th2 = overrideSection_effect [where st = exOverride and ttl = "''ICT1201 - Networks''"
      and c = "''999''"]
  from th1 h1 h2 have "overrideSection exOverride ''ICT1201 - Networks'' ''303''
       = exOverride\<lparr> solution := Some [(''ICT1201 - Algebra'', secA1), (''ICT1201 - Networks'', secOpen3)],
                      conflictCRNs := [], status := ''Manual override applied.'' \<rparr>"
    unfolding e1 e2 by simp
  moreover from th2 h3 have "overrideSection exOverride ''ICT1201 - Networks'' ''999'' = exOverride"
    by blast
  ultimately show ?thesis using h1 h2 h3 by blast
qed

text \<open>
  The claim C5 as stated fails: with closed sections excluded, the identifier of a closed
  section of the title is not found and the override changes nothing.
\<close>

theorem overrideSection_closed_filter_counterexample:
  "includeClosed exOverride = False
   \<and> solution exOverride = Some [(''ICT1201 - Algebra'', secA1), (''ICT1201 - Networks'', secOpen)]
   \<and> candidatesOf True (records exOverride) ''ICT1201 - Networks'' = [secOpen, secOpen3, secClosed]
   \<and> courseReferenceNumber secClosed = ''302''
   \<and> overrideSection exOverride ''ICT1201 - Networks'' ''302'' = exOverride"
proof (intro conjI)
  show "includeClosed exOverride = False" by code_simp
  show "solution exOverride = Some [(''ICT1201 - Algebra'', secA1), (''ICT1201 - Networks'', secOpen)]"
    by code_simp
  show "candidatesOf True (records exOverride) ''ICT1201 - Networks'' = [secOpen, secOpen3, secClosed]"
    by code_simp
  show "courseReferenceNumber secClosed = ''302''" by code_simp
  show "overrideSection exOverride ''ICT1201 - Networks'' ''302'' = exOverride" by code_simp
qed

end
